theory Spec2Isabelle
  imports Main "HOL-Library.Word" "HOL-Library.AList" "HOL-Library.Sublist" "HOL-Library.Multiset"
begin

section \<open>Block play of go-ibax: packages/block/play.go\<close>

text \<open>
  The theory embeds the four functions of \<^verbatim>\<open>packages/block/play.go\<close>: the two account
  groupers (\<^verbatim>\<open>groupUtxoTxs\<close>, \<^verbatim>\<open>groupTransferSelfTxs\<close>), the serial executor
  (\<^verbatim>\<open>serialExecuteTxs\<close>), the phase driver (\<^verbatim>\<open>ProcessTxs\<close>) and the coordinator
  (\<^verbatim>\<open>PlaySafe\<close>). Everything the file calls in other packages (the database layer, the
  transaction layer, system parameters, the node service, notifications) is a field of the
  environment record \<open>Env\<close>: the value such a call returns, given its arguments. Every call
  that has an effect outside the block is recorded, in program order, in a trace of events.
\<close>

subsection \<open>Data\<close>

type_synonym int64 = "64 word"
type_synonym bytes = string

text \<open>
  The fields of \<^verbatim>\<open>transaction.Transaction\<close> that play.go reads before the transaction is
  played: \<^verbatim>\<open>Hash()\<close>, \<^verbatim>\<open>KeyID()\<close>, \<^verbatim>\<open>SmartContract().TxSmart.UTXO.ToID\<close>,
  \<^verbatim>\<open>IsSmartContract()\<close> and \<^verbatim>\<open>FullData\<close>.
\<close>

record Transaction =
  Hash :: bytes
  KeyID :: int64
  ToID :: int64
  IsSmartContract :: bool
  FullData :: bytes

subsection \<open>The account groupers\<close>

text \<open>
  \<^verbatim>\<open>walletAddress\<close> is a \<^verbatim>\<open>map[int64]int64\<close>: an association list with distinct keys.
  Reading a key that is absent gives Go's zero value; \<^verbatim>\<open>len(walletAddress) == 0\<close> is the test
  for the empty list.
\<close>

type_synonym wallet = "(int64 \<times> int64) list"

definition walletGet :: "wallet \<Rightarrow> int64 \<Rightarrow> int64" where
  "walletGet w k = (case map_of w k of None \<Rightarrow> 0 | Some v \<Rightarrow> v)"

definition walletPut :: "int64 \<Rightarrow> int64 \<Rightarrow> wallet \<Rightarrow> wallet" where
  "walletPut k v w = AList.update k v w"

text \<open>
  The module-level variables of one grouper: the group map, the list of the group being
  built and the 16-bit serial. The map's key \<^verbatim>\<open>strconv.Itoa(int(serial))\<close> is the decimal
  text of a natural number; the model keeps the number.
\<close>

record GroupState =
  TxsGroupMap :: "(nat \<times> Transaction list) list"
  GroupTxsList :: "Transaction list"
  GroupSerial :: "16 word"

definition initGroupState :: GroupState where
  "initGroupState = \<lparr>TxsGroupMap = [], GroupTxsList = [], GroupSerial = 1\<rparr>"

text \<open>
  The \<^verbatim>\<open>for i := 0; i < size; i++\<close> loop of \<^verbatim>\<open>groupUtxoTxs\<close>. A branch that takes
  \<^verbatim>\<open>txs[i]\<close> out of the list ends with \<^verbatim>\<open>i--\<close>, so the next round reads the same index.
  The result is the list left over, the wallet and the group list.
\<close>

function utxoSweep ::
  "nat \<Rightarrow> Transaction list \<Rightarrow> wallet \<Rightarrow> Transaction list \<Rightarrow>
   Transaction list \<times> wallet \<times> Transaction list" where
  "utxoSweep i txs w gl =
     (if i < length txs then
        (if length w = 0 then
           utxoSweep i (tl txs)
             (walletPut (ToID (txs ! i)) (ToID (txs ! i))
                (walletPut (KeyID (txs ! i)) (KeyID (txs ! i)) w))
             (gl @ [txs ! i])
         else if walletGet w (KeyID (txs ! i)) \<noteq> 0 \<or> walletGet w (ToID (txs ! i)) \<noteq> 0 then
           utxoSweep i (take i txs @ drop (Suc i) txs)
             (walletPut (ToID (txs ! i)) (ToID (txs ! i))
                (walletPut (KeyID (txs ! i)) (KeyID (txs ! i)) w))
             (gl @ [txs ! i])
         else utxoSweep (Suc i) txs w gl)
      else (txs, w, gl))"
  by pat_completeness auto
termination
  by (relation "measure (\<lambda>(i, txs, w, gl). 2 * length txs - i)") auto

declare utxoSweep.simps [simp del]

lemma mset_remove_nth:
  "i < length xs \<Longrightarrow> mset (take i xs @ drop (Suc i) xs) + {#xs ! i#} = mset xs"
proof -
  assume "i < length xs"
  then have "xs = take i xs @ xs ! i # drop (Suc i) xs" by (rule id_take_nth_drop)
  then have "mset xs = mset (take i xs @ xs ! i # drop (Suc i) xs)" by simp
  then show ?thesis by simp
qed

lemma walletPut_nonempty [simp]: "walletPut k v w \<noteq> []"
  by (simp add: walletPut_def)

text \<open>
  A sweep only appends to the group list, and what it appends it takes out of the list.
  (The wallet is empty only when a sweep starts, at index 0.)
\<close>

lemma utxoSweep_split:
  "utxoSweep i txs w gl = (txs', w', gl') \<Longrightarrow> (length w = 0 \<Longrightarrow> i = 0) \<Longrightarrow>
   \<exists>ys. gl' = gl @ ys \<and> mset txs = mset txs' + mset ys"
proof (induction i txs w gl rule: utxoSweep.induct)
  case (1 i txs w gl)
  note eq = utxoSweep.simps [of i txs w gl]
  let ?w' = "walletPut (ToID (txs ! i)) (ToID (txs ! i))
              (walletPut (KeyID (txs ! i)) (KeyID (txs ! i)) w)"
  have w': "length ?w' = 0 \<Longrightarrow> i = 0" by simp
  show ?case
  proof (cases "i < length txs")
    case False
    with "1.prems" eq show ?thesis by simp
  next
    case inb: True
    show ?thesis
    proof (cases "length w = 0")
      case True
      with inb "1.prems"(1) eq have
        "utxoSweep i (tl txs) ?w' (gl @ [txs ! i]) = (txs', w', gl')" by simp
      from "1.IH"(1) [OF inb True this w'] obtain ys where
        ys: "gl' = (gl @ [txs ! i]) @ ys" "mset (tl txs) = mset txs' + mset ys" by blast
      from True "1.prems"(2) have "i = 0" by simp
      with inb have "mset txs = mset (tl txs) + {#txs ! i#}" by (cases txs) simp_all
      with ys have "gl' = gl @ (txs ! i # ys) \<and> mset txs = mset txs' + mset (txs ! i # ys)"
        by simp
      then show ?thesis by blast
    next
      case nonempty: False
      show ?thesis
      proof (cases "walletGet w (KeyID (txs ! i)) \<noteq> 0 \<or> walletGet w (ToID (txs ! i)) \<noteq> 0")
        case True
        with inb nonempty "1.prems"(1) eq have
          "utxoSweep i (take i txs @ drop (Suc i) txs) ?w' (gl @ [txs ! i]) = (txs', w', gl')"
          by auto
        from "1.IH"(2) [OF inb nonempty True this w'] obtain ys where
          ys: "gl' = (gl @ [txs ! i]) @ ys"
              "mset (take i txs @ drop (Suc i) txs) = mset txs' + mset ys" by blast
        from mset_remove_nth [OF inb] ys(2) have "mset txs = mset txs' + mset (txs ! i # ys)"
          by simp
        with ys(1) have "gl' = gl @ (txs ! i # ys) \<and> mset txs = mset txs' + mset (txs ! i # ys)"
          by simp
        then show ?thesis by blast
      next
        case False
        with inb nonempty "1.prems"(1) eq have "utxoSweep (Suc i) txs w gl = (txs', w', gl')"
          by auto
        from "1.IH"(3) [OF inb nonempty False this] nonempty show ?thesis by simp
      qed
    qed
  qed
qed

lemma utxoSweep_length:
  assumes "utxoSweep 0 txs w gl = (txs', w', gl')"
  shows "length txs' + length gl' = length txs + length gl"
proof -
  from utxoSweep_split [OF assms] obtain ys where
    "gl' = gl @ ys" "mset txs = mset txs' + mset ys" by blast
  then have "length gl' = length gl + length ys" "size (mset txs) = size (mset txs' + mset ys)"
    by simp_all
  then show ?thesis by simp
qed

lemma utxoSweep_seed:
  assumes "utxoSweep 0 txs [] gl = (txs', w', gl')" and "txs \<noteq> []"
  shows "length gl < length gl'"
proof -
  let ?w' = "walletPut (ToID (txs ! 0)) (ToID (txs ! 0))
              (walletPut (KeyID (txs ! 0)) (KeyID (txs ! 0)) [])"
  from assms have "utxoSweep 0 (tl txs) ?w' (gl @ [txs ! 0]) = (txs', w', gl')"
    by (subst (asm) utxoSweep.simps) simp
  from utxoSweep_split [OF this] obtain ys where "gl' = (gl @ [txs ! 0]) @ ys"
    by auto
  then show ?thesis by simp
qed

text \<open>
  \<^verbatim>\<open>groupUtxoTxs\<close>. The Go function reads and writes the module-level variables and returns
  the group map; the model takes the variables as \<open>g\<close> and returns them updated. In the last
  branch the Go function calls itself with the arguments and the variables it was called
  with (the sweep took nothing, the group list is empty), so it never returns: the value is
  \<open>None\<close>.
\<close>

function groupUtxoTxs ::
  "GroupState \<Rightarrow> Transaction list \<Rightarrow> wallet \<Rightarrow> GroupState option" where
  "groupUtxoTxs g txs w =
     (if length txs = 0 then Some g
      else
        (case utxoSweep 0 txs w (GroupTxsList g) of
           (txs', w', gl') \<Rightarrow>
             if length (GroupTxsList g) < length gl' then
               (if length txs' = 0 then
                  Some (g\<lparr>GroupTxsList := gl',
                          TxsGroupMap := AList.update (unat (GroupSerial g)) gl' (TxsGroupMap g)\<rparr>)
                else groupUtxoTxs (g\<lparr>GroupTxsList := gl'\<rparr>) txs' w')
             else if length gl' > 0 then
               groupUtxoTxs
                 (g\<lparr>TxsGroupMap := AList.update (unat (GroupSerial g)) gl' (TxsGroupMap g),
                    GroupSerial := GroupSerial g + 1,
                    GroupTxsList := []\<rparr>) txs' []
             else None))"
  by pat_completeness auto
termination
proof (relation "measure (\<lambda>(g, txs, w). 2 * length txs + (if length w = 0 then 0 else 1))",
    goal_cases)
  case 1
  show ?case by simp
next
  case (2 g txs w txs' y w' gl')
  then have sw: "utxoSweep 0 txs w (GroupTxsList g) = (txs', w', gl')" by simp
  from 2 have "length (GroupTxsList g) < length gl'" by simp
  with utxoSweep_length [OF sw] show ?case by simp
next
  case (3 g txs w txs' y w' gl')
  then have sw: "utxoSweep 0 txs w (GroupTxsList g) = (txs', w', gl')" by simp
  from 3 have ne: "txs \<noteq> []" and nogrow: "\<not> length (GroupTxsList g) < length gl'"
    by simp_all
  have "w \<noteq> []"
  proof
    assume "w = []"
    with sw ne have "length (GroupTxsList g) < length gl'"
      using utxoSweep_seed [of txs "GroupTxsList g" txs' w' gl'] by simp
    with nogrow show False by simp
  qed
  moreover from utxoSweep_split [OF sw] obtain ys where
    ys: "gl' = GroupTxsList g @ ys" "mset txs = mset txs' + mset ys" by auto
  from ys(1) nogrow have "ys = []" by simp
  with ys(2) have "mset txs = mset txs'" by simp
  then have "length txs' = length txs" by (metis size_mset)
  ultimately show ?case by simp
qed

declare groupUtxoTxs.simps [simp del]

text \<open>
  The \<^verbatim>\<open>for i := 0; i < size; i++\<close> loop of \<^verbatim>\<open>groupTransferSelfTxs\<close>. A branch that takes
  \<^verbatim>\<open>txs[i]\<close> out of the list ends with \<^verbatim>\<open>i--\<close>, so the next round reads the same index.
  The result is the list left over, the wallet and the group list.
\<close>

function transferSelfSweep ::
  "nat \<Rightarrow> Transaction list \<Rightarrow> wallet \<Rightarrow> Transaction list \<Rightarrow>
   Transaction list \<times> wallet \<times> Transaction list" where
  "transferSelfSweep i txs w gl =
     (if i < length txs then
        (if length w = 0 then
           transferSelfSweep i (tl txs)
             (walletPut (KeyID (txs ! i)) (KeyID (txs ! i)) w)
             (gl @ [txs ! i])
         else if walletGet w (KeyID (txs ! i)) \<noteq> 0 then
           transferSelfSweep i (take i txs @ drop (Suc i) txs)
             (walletPut (KeyID (txs ! i)) (KeyID (txs ! i)) w)
             (gl @ [txs ! i])
         else transferSelfSweep (Suc i) txs w gl)
      else (txs, w, gl))"
  by pat_completeness auto
termination
  by (relation "measure (\<lambda>(i, txs, w, gl). 2 * length txs - i)") auto

declare transferSelfSweep.simps [simp del]

text \<open>
  A sweep only appends to the group list, and what it appends it takes out of the list.
  (The wallet is empty only when a sweep starts, at index 0.)
\<close>

lemma transferSelfSweep_split:
  "transferSelfSweep i txs w gl = (txs', w', gl') \<Longrightarrow> (length w = 0 \<Longrightarrow> i = 0) \<Longrightarrow>
   \<exists>ys. gl' = gl @ ys \<and> mset txs = mset txs' + mset ys"
proof (induction i txs w gl rule: transferSelfSweep.induct)
  case (1 i txs w gl)
  note eq = transferSelfSweep.simps [of i txs w gl]
  let ?w' = "walletPut (KeyID (txs ! i)) (KeyID (txs ! i)) w"
  have w': "length ?w' = 0 \<Longrightarrow> i = 0" by simp
  show ?case
  proof (cases "i < length txs")
    case False
    with "1.prems" eq show ?thesis by simp
  next
    case inb: True
    show ?thesis
    proof (cases "length w = 0")
      case True
      with inb "1.prems"(1) eq have
        "transferSelfSweep i (tl txs) ?w' (gl @ [txs ! i]) = (txs', w', gl')" by simp
      from "1.IH"(1) [OF inb True this w'] obtain ys where
        ys: "gl' = (gl @ [txs ! i]) @ ys" "mset (tl txs) = mset txs' + mset ys" by blast
      from True "1.prems"(2) have "i = 0" by simp
      with inb have "mset txs = mset (tl txs) + {#txs ! i#}" by (cases txs) simp_all
      with ys have "gl' = gl @ (txs ! i # ys) \<and> mset txs = mset txs' + mset (txs ! i # ys)"
        by simp
      then show ?thesis by blast
    next
      case nonempty: False
      show ?thesis
      proof (cases "walletGet w (KeyID (txs ! i)) \<noteq> 0")
        case True
        with inb nonempty "1.prems"(1) eq have
          "transferSelfSweep i (take i txs @ drop (Suc i) txs) ?w' (gl @ [txs ! i]) = (txs', w', gl')"
          by auto
        from "1.IH"(2) [OF inb nonempty True this w'] obtain ys where
          ys: "gl' = (gl @ [txs ! i]) @ ys"
              "mset (take i txs @ drop (Suc i) txs) = mset txs' + mset ys" by blast
        from mset_remove_nth [OF inb] ys(2) have "mset txs = mset txs' + mset (txs ! i # ys)"
          by simp
        with ys(1) have "gl' = gl @ (txs ! i # ys) \<and> mset txs = mset txs' + mset (txs ! i # ys)"
          by simp
        then show ?thesis by blast
      next
        case False
        with inb nonempty "1.prems"(1) eq have "transferSelfSweep (Suc i) txs w gl = (txs', w', gl')"
          by auto
        from "1.IH"(3) [OF inb nonempty False this] nonempty show ?thesis by simp
      qed
    qed
  qed
qed

lemma transferSelfSweep_length:
  assumes "transferSelfSweep 0 txs w gl = (txs', w', gl')"
  shows "length txs' + length gl' = length txs + length gl"
proof -
  from transferSelfSweep_split [OF assms] obtain ys where
    "gl' = gl @ ys" "mset txs = mset txs' + mset ys" by blast
  then have "length gl' = length gl + length ys" "size (mset txs) = size (mset txs' + mset ys)"
    by simp_all
  then show ?thesis by simp
qed

lemma transferSelfSweep_seed:
  assumes "transferSelfSweep 0 txs [] gl = (txs', w', gl')" and "txs \<noteq> []"
  shows "length gl < length gl'"
proof -
  let ?w' = "walletPut (KeyID (txs ! 0)) (KeyID (txs ! 0)) []"
  from assms have "transferSelfSweep 0 (tl txs) ?w' (gl @ [txs ! 0]) = (txs', w', gl')"
    by (subst (asm) transferSelfSweep.simps) simp
  from transferSelfSweep_split [OF this] obtain ys where "gl' = (gl @ [txs ! 0]) @ ys"
    by auto
  then show ?thesis by simp
qed

text \<open>
  \<^verbatim>\<open>groupTransferSelfTxs\<close>. The Go function reads and writes the module-level variables and returns
  the group map; the model takes the variables as \<open>g\<close> and returns them updated. In the last
  branch the Go function calls itself with the arguments and the variables it was called
  with (the sweep took nothing, the group list is empty), so it never returns: the value is
  \<open>None\<close>.
\<close>

function groupTransferSelfTxs ::
  "GroupState \<Rightarrow> Transaction list \<Rightarrow> wallet \<Rightarrow> GroupState option" where
  "groupTransferSelfTxs g txs w =
     (if length txs = 0 then Some g
      else
        (case transferSelfSweep 0 txs w (GroupTxsList g) of
           (txs', w', gl') \<Rightarrow>
             if length (GroupTxsList g) < length gl' then
               (if length txs' = 0 then
                  Some (g\<lparr>GroupTxsList := gl',
                          TxsGroupMap := AList.update (unat (GroupSerial g)) gl' (TxsGroupMap g)\<rparr>)
                else groupTransferSelfTxs (g\<lparr>GroupTxsList := gl'\<rparr>) txs' w')
             else if length gl' > 0 then
               groupTransferSelfTxs
                 (g\<lparr>TxsGroupMap := AList.update (unat (GroupSerial g)) gl' (TxsGroupMap g),
                    GroupSerial := GroupSerial g + 1,
                    GroupTxsList := []\<rparr>) txs' []
             else None))"
  by pat_completeness auto
termination
proof (relation "measure (\<lambda>(g, txs, w). 2 * length txs + (if length w = 0 then 0 else 1))",
    goal_cases)
  case 1
  show ?case by simp
next
  case (2 g txs w txs' y w' gl')
  then have sw: "transferSelfSweep 0 txs w (GroupTxsList g) = (txs', w', gl')" by simp
  from 2 have "length (GroupTxsList g) < length gl'" by simp
  with transferSelfSweep_length [OF sw] show ?case by simp
next
  case (3 g txs w txs' y w' gl')
  then have sw: "transferSelfSweep 0 txs w (GroupTxsList g) = (txs', w', gl')" by simp
  from 3 have ne: "txs \<noteq> []" and nogrow: "\<not> length (GroupTxsList g) < length gl'"
    by simp_all
  have "w \<noteq> []"
  proof
    assume "w = []"
    with sw ne have "length (GroupTxsList g) < length gl'"
      using transferSelfSweep_seed [of txs "GroupTxsList g" txs' w' gl'] by simp
    with nogrow show False by simp
  qed
  moreover from transferSelfSweep_split [OF sw] obtain ys where
    ys: "gl' = GroupTxsList g @ ys" "mset txs = mset txs' + mset ys" by auto
  from ys(1) nogrow have "ys = []" by simp
  with ys(2) have "mset txs = mset txs'" by simp
  then have "length txs' = length txs" by (metis size_mset)
  ultimately show ?case by simp
qed

declare groupTransferSelfTxs.simps [simp del]

subsection \<open>Errors\<close>

text \<open>
  Go error values. The four sentinels are compared by identity in play.go. \<open>ErrorNew\<close> is
  any other plain error with its message, \<open>Wrap\<close> an error of \<^verbatim>\<open>github.com/pkg/errors\<close>
  that carries a cause, and the three \<open>Errorf\<close> constructors are the errors play.go builds
  itself with \<^verbatim>\<open>fmt.Errorf\<close>.
\<close>

datatype error =
    ErrNetworkStopping
  | ErrLimitStop
  | ErrVMTimeLimit
  | ErrEmptyBlock
  | ErrorNew string
  | Wrap error string
  | ErrorfBoth error error
  | ErrorfSyspar error
  | ErrorfParse error

text \<open>\<^verbatim>\<open>errors.Cause\<close>: unwraps while the error carries a cause.\<close>

fun Cause :: "error \<Rightarrow> error" where
  "Cause (Wrap e m) = Cause e"
| "Cause e = e"

text \<open>
  \<^verbatim>\<open>err.Error()\<close>. The message texts of the four sentinels are declared in packages
  that are not part of the source at hand; they are the parameter \<open>txt\<close>.
  \<open>ErrorfBoth\<close> is \<^verbatim>\<open>fmt.Errorf("%v; %w", err, errA)\<close>.
\<close>

fun Error :: "(error \<Rightarrow> string) \<Rightarrow> error \<Rightarrow> string" where
  "Error txt (ErrorNew m) = m"
| "Error txt (Wrap e m) = m @ '': '' @ Error txt e"
| "Error txt (ErrorfBoth e1 e2) = Error txt e1 @ ''; '' @ Error txt e2"
| "Error txt (ErrorfSyspar e) = ''updating syspar: '' @ Error txt e"
| "Error txt (ErrorfParse e) = ''parse transaction error('' @ Error txt e @ '')''"
| "Error txt e = txt e"

text \<open>\<^verbatim>\<open>strings.Contains(s, substr)\<close>.\<close>

definition Contains :: "string \<Rightarrow> string \<Rightarrow> bool" where
  "Contains s substr = sublist substr s"

subsection \<open>The environment and the trace\<close>

datatype TxType =
    StopNetworkTxType
  | FirstBlockTxType
  | DelayTxType
  | TransferSelfTxType
  | UtxoTxType
  | SmartContractTxType

text \<open>
  What \<^verbatim>\<open>transaction.UnmarshallTransaction\<close> returns: a transaction, or an error together
  with the hash of the half-parsed transaction when there is one
  (\<^verbatim>\<open>t != nil && t.Hash() != nil\<close>).
\<close>

datatype Unmarshalled = Parsed Transaction | ParseError "bytes option" error

text \<open>
  What \<^verbatim>\<open>t.Play()\<close> leaves behind: its error, the transaction's \<^verbatim>\<open>SysUpdate\<close> flag, its
  notification queue, its rollback records and the SQL log of its database transaction.
\<close>

record PlayResult =
  playErr :: "error option"
  playSysUpdate :: bool
  playNotifications :: "string list"
  playRollBackTx :: "string list"
  playBinLogSql :: "string list"

text \<open>
  The collaborators of play.go. A field gives the result of the call for its arguments;
  \<open>None\<close> is a nil error. \<open>Schedule\<close> is the order in which the goroutines of one parallel
  phase, one per group of the group map, get the lock: each holds it for its whole group, so
  the groups run one after the other in that order.
\<close>

record Env =
  SentinelText :: "error \<Rightarrow> string"
  BlockSyncMethodSQLDML :: bool
  StartTransaction :: "error option"
  GetTxOutputs :: "int64 list \<Rightarrow> error option"
  Savepoint :: "Transaction \<Rightarrow> error option"
  RollbackSavepoint :: "Transaction \<Rightarrow> error option"
  Commit :: "error option"
  UnmarshallTransaction :: "bytes \<Rightarrow> Unmarshalled"
  WithOption :: "Transaction \<Rightarrow> error option"
  Play :: "Transaction \<Rightarrow> PlayResult"
  MarkTransactionBad :: "bytes \<Rightarrow> string \<Rightarrow> error option"
  SysparSysUpdate :: "error option"
  AfterPlayTxs :: "error option"
  InsertIntoBlockchain :: "error option"
  Schedule :: "(nat \<times> Transaction list) list \<Rightarrow> (nat \<times> Transaction list) list"

datatype event =
    EvStartTransaction
  | EvRollback
  | EvCommit
  | EvGetTxOutputs "int64 list"
  | EvSavepoint Transaction
  | EvRollbackSavepoint Transaction
  | EvWithOption Transaction
  | EvPlay Transaction
  | EvPauseNodeActivity
  | EvBadTxForBan int64
  | EvMarkTransactionBad bytes string
  | EvSysparSysUpdate
  | EvUpdateTxInputs Transaction
  | EvInsertTxOutputs Transaction
  | EvAfterPlayTxs
  | EvInsertIntoBlockchain
  | EvSend "string list"

text \<open>
  \<^verbatim>\<open>types.AfterTx\<close> and \<^verbatim>\<open>types.AfterTxs\<close>. Of the log record \<^verbatim>\<open>Lts\<close> the model keeps
  the hash, the data and the address; the block id, the timestamp, the ecosystem, the
  contract name and the invoke status are read from the played transaction and no
  decision of play.go depends on them.
\<close>

record AfterTx =
  UsedTx :: bytes
  LtsTxData :: bytes
  LtsAddress :: int64

record AfterTxsRec =
  Rts :: "string list"
  Txs :: "AfterTx list"
  TxBinLogSql :: "string list"

text \<open>
  The fields of \<^verbatim>\<open>Block\<close> that decide what play.go does or that it writes.
  \<^verbatim>\<open>IsGenesis\<close> is the result of the method \<^verbatim>\<open>b.IsGenesis()\<close>. The headers and the
  \<^verbatim>\<open>OutputsMap\<close> are handed on to the transaction and database layers and are not modelled.
\<close>

record Block =
  GenBlock :: bool
  IsGenesis :: bool
  SysUpdate :: bool
  Transactions :: "Transaction list"
  ClassifyTxsMap :: "TxType \<Rightarrow> bytes list"
  Notifications :: "string list list"
  TxFullData :: "bytes list"
  AfterTxs :: "AfterTxsRec option"

text \<open>
  The state one block play runs in: the block, the trace of the outside calls made so far,
  the locals \<^verbatim>\<open>afters\<close> and \<^verbatim>\<open>processedTx\<close> of \<^verbatim>\<open>ProcessTxs\<close> (the executor gets
  pointers to them) and the module-level variables of the two groupers.
\<close>

record State =
  blk :: Block
  trace :: "event list"
  afters :: AfterTxsRec
  processedTx :: "bytes list"
  utxoGroup :: GroupState
  transferSelfGroup :: GroupState

definition emit :: "event \<Rightarrow> State \<Rightarrow> State" where
  "emit e st = st\<lparr>trace := trace st @ [e]\<rparr>"

subsection \<open>The serial executor\<close>

text \<open>How one round of the loop of \<^verbatim>\<open>serialExecuteTxs\<close> ends.\<close>

datatype Flow =
    Return "error option"
  | Break
  | Continue error
  | Next

text \<open>
  The part of the loop body after a successful \<^verbatim>\<open>t.Play()\<close>.
\<close>

definition acceptTx :: "Transaction \<Rightarrow> PlayResult \<Rightarrow> State \<Rightarrow> State" where
  "acceptTx t r st =
     (let st1 = (if playSysUpdate r then st\<lparr>blk := (blk st)\<lparr>SysUpdate := True\<rparr>\<rparr> else st);
          st2 = (if length (playNotifications r) > 0
                 then st1\<lparr>blk := (blk st1)\<lparr>Notifications :=
                        Notifications (blk st1) @ [playNotifications r]\<rparr>\<rparr>
                 else st1);
          after = \<lparr>UsedTx = Hash t, LtsTxData = FullData t, LtsAddress = KeyID t\<rparr>;
          st3 = st2\<lparr>afters := (afters st2)\<lparr>
                   Txs := Txs (afters st2) @ [after],
                   Rts := Rts (afters st2) @ playRollBackTx r,
                   TxBinLogSql := TxBinLogSql (afters st2) @ playBinLogSql r\<rparr>,
                 processedTx := processedTx st2 @ [FullData t]\<rparr>
      in emit (EvInsertTxOutputs t) (emit (EvUpdateTxInputs t) st3))"

text \<open>
  The part of the loop body after a failed \<^verbatim>\<open>t.Play()\<close> whose error is not
  \<^verbatim>\<open>ErrNetworkStopping\<close> and whose savepoint has been rolled back.
\<close>

definition rejectTx :: "Env \<Rightarrow> nat \<Rightarrow> Transaction \<Rightarrow> PlayResult \<Rightarrow> error \<Rightarrow> State \<Rightarrow> Flow \<times> State" where
  "rejectTx env curTx t r err st =
     (if GenBlock (blk st) \<and> Cause err = ErrLimitStop then
        (if curTx = 0 then (Return (Some err), st) else (Break, st))
      else
        (let err1 = (if GenBlock (blk st) \<and>
                        Contains (Error (SentinelText env) err) (Error (SentinelText env) ErrVMTimeLimit)
                     then ErrVMTimeLimit else err);
             st1 = (if IsSmartContract t then emit (EvBadTxForBan (KeyID t)) st else st);
             st2 = emit (EvMarkTransactionBad (Hash t) (Error (SentinelText env) err1)) st1
         in if playSysUpdate r then
              (case SysparSysUpdate env of
                 Some e \<Rightarrow> (Return (Some (ErrorfSyspar e)), emit EvSysparSysUpdate st2)
               | None \<Rightarrow>
                   if GenBlock (blk st) then (Continue err1, emit EvSysparSysUpdate st2)
                   else (Return (Some err1), emit EvSysparSysUpdate st2))
            else if GenBlock (blk st) then (Continue err1, st2)
            else (Return (Some err1), st2)))"

text \<open>One round of the loop: the body for \<^verbatim>\<open>t := txs[curTx]\<close>.\<close>

definition execTx :: "Env \<Rightarrow> nat \<Rightarrow> Transaction \<Rightarrow> State \<Rightarrow> Flow \<times> State" where
  "execTx env curTx t st =
     (case Savepoint env t of
        Some err \<Rightarrow> (Return (Some err), emit (EvSavepoint t) st)
      | None \<Rightarrow>
          (case WithOption env t of
             Some err \<Rightarrow> (Return (Some err), emit (EvWithOption t) (emit (EvSavepoint t) st))
           | None \<Rightarrow>
               (let st1 = emit (EvPlay t) (emit (EvWithOption t) (emit (EvSavepoint t) st))
                in case playErr (Play env t) of
                     None \<Rightarrow> (Next, acceptTx t (Play env t) st1)
                   | Some err \<Rightarrow>
                       if err = ErrNetworkStopping then
                         (Return (Some err), emit EvPauseNodeActivity st1)
                       else
                         (case RollbackSavepoint env t of
                            Some errRoll \<Rightarrow>
                              (Return (Some (ErrorfBoth err errRoll)),
                               emit (EvRollbackSavepoint t) st1)
                          | None \<Rightarrow>
                              rejectTx env curTx t (Play env t) err
                                (emit (EvRollbackSavepoint t) st1)))))"

text \<open>
  The loop \<^verbatim>\<open>for curTx := 0; curTx < len(txs); curTx++\<close>, on the transactions from
  \<^verbatim>\<open>curTx\<close> on. \<^verbatim>\<open>genBErr\<close> is the parameter of \<^verbatim>\<open>serialExecuteTxs\<close>, an \<^verbatim>\<open>error\<close>
  passed by value: the loop assigns to it and the function returns without it.
\<close>

fun serialLoop ::
  "Env \<Rightarrow> nat \<Rightarrow> Transaction list \<Rightarrow> error option \<Rightarrow> State \<Rightarrow> error option \<times> State" where
  "serialLoop env curTx [] genBErr st = (None, st)"
| "serialLoop env curTx (t # txs) genBErr st =
     (case execTx env curTx t st of
        (Return e, st') \<Rightarrow> (e, st')
      | (Break, st') \<Rightarrow> (None, st')
      | (Continue err, st') \<Rightarrow> serialLoop env (Suc curTx) txs (Some err) st'
      | (Next, st') \<Rightarrow> serialLoop env (Suc curTx) txs genBErr st')"

text \<open>
  \<^verbatim>\<open>serialExecuteTxs\<close>. The lock it takes and releases orders the goroutines (see
  \<open>Schedule\<close>) and has no other effect.
\<close>

definition serialExecuteTxs ::
  "Env \<Rightarrow> Transaction list \<Rightarrow> error option \<Rightarrow> State \<Rightarrow> error option \<times> State" where
  "serialExecuteTxs env txs genBErr st = serialLoop env 0 txs genBErr st"

subsection \<open>ProcessTxs\<close>

text \<open>
  The inner loop of the classification: every raw transaction of one kind is parsed; one
  that does not parse is marked bad when its hash is known, and left out.
\<close>

fun unmarshallAll ::
  "Env \<Rightarrow> bytes list \<Rightarrow> Transaction list \<Rightarrow> State \<Rightarrow> Transaction list \<times> State" where
  "unmarshallAll env [] transactions st = (transactions, st)"
| "unmarshallAll env (txBytes # rest) transactions st =
     (case UnmarshallTransaction env txBytes of
        Parsed t \<Rightarrow> unmarshallAll env rest (transactions @ [t]) st
      | ParseError h err \<Rightarrow>
          (case h of
             Some hash \<Rightarrow>
               unmarshallAll env rest transactions
                 (emit (EvMarkTransactionBad hash (Error (SentinelText env) err)) st)
           | None \<Rightarrow> unmarshallAll env rest transactions st))"

text \<open>
  The outer loop, \<^verbatim>\<open>for k, txs := range b.ClassifyTxsMap\<close>, over the kinds in the order
  given (Go leaves the order of a map's keys open; it decides nothing but the order of the
  marks of transactions that do not parse). A kind the map does not hold has no entries.
\<close>

fun classify ::
  "Env \<Rightarrow> TxType list \<Rightarrow> (TxType \<Rightarrow> Transaction list) \<Rightarrow> State \<Rightarrow>
   (TxType \<Rightarrow> Transaction list) \<times> State" where
  "classify env [] txsMap st = (txsMap, st)"
| "classify env (k # ks) txsMap st =
     (case unmarshallAll env (ClassifyTxsMap (blk st) k) [] st of
        (transactions, st') \<Rightarrow> classify env ks (txsMap(k := transactions)) st')"

definition allTxTypes :: "TxType list" where
  "allTxTypes =
     [StopNetworkTxType, FirstBlockTxType, DelayTxType, TransferSelfTxType, UtxoTxType,
      SmartContractTxType]"

text \<open>
  The loop of the genesis phase: the block's transactions are parsed again from their
  \<^verbatim>\<open>FullData\<close>; the first that does not parse ends \<^verbatim>\<open>ProcessTxs\<close>.
\<close>

fun parseFirstBlock ::
  "Env \<Rightarrow> Transaction list \<Rightarrow> Transaction list \<Rightarrow> State \<Rightarrow>
   error option \<times> Transaction list \<times> State" where
  "parseFirstBlock env [] transactions st = (None, transactions, st)"
| "parseFirstBlock env (tx # rest) transactions st =
     (case UnmarshallTransaction env (FullData tx) of
        Parsed t \<Rightarrow> parseFirstBlock env rest (transactions @ [t]) st
      | ParseError h err \<Rightarrow>
          (case h of
             Some hash \<Rightarrow>
               (Some (ErrorfParse err), transactions,
                emit (EvMarkTransactionBad hash (Error (SentinelText env) err)) st)
           | None \<Rightarrow> (Some (ErrorfParse err), transactions, st)))"

text \<open>
  One parallel phase: a goroutine per group runs \<^verbatim>\<open>serialExecuteTxs\<close> under the lock and
  drops the error it returns (\<^verbatim>\<open>if err != nil { return }\<close>).
\<close>

fun runGroups ::
  "Env \<Rightarrow> (nat \<times> Transaction list) list \<Rightarrow> error option \<Rightarrow> State \<Rightarrow> State" where
  "runGroups env [] genBErr st = st"
| "runGroups env ((g, transactions) # rest) genBErr st =
     runGroups env rest genBErr (snd (serialExecuteTxs env transactions genBErr st))"

definition phaseStopNetwork ::
  "Env \<Rightarrow> (TxType \<Rightarrow> Transaction list) \<Rightarrow> error option \<Rightarrow> State \<Rightarrow> error option \<times> State" where
  "phaseStopNetwork env txsMap genBErr st =
     (if length (txsMap StopNetworkTxType) > 0
      then serialExecuteTxs env (txsMap StopNetworkTxType) genBErr st
      else (None, st))"

definition phaseFirstBlock ::
  "Env \<Rightarrow> error option \<Rightarrow> State \<Rightarrow> error option \<times> State" where
  "phaseFirstBlock env genBErr st =
     (if IsGenesis (blk st) then
        (case parseFirstBlock env (Transactions (blk st)) [] st of
           (Some err, transactions, st') \<Rightarrow> (Some err, st')
         | (None, transactions, st') \<Rightarrow> serialExecuteTxs env transactions genBErr st')
      else (None, st))"

definition phaseDelay ::
  "Env \<Rightarrow> (TxType \<Rightarrow> Transaction list) \<Rightarrow> error option \<Rightarrow> State \<Rightarrow> error option \<times> State" where
  "phaseDelay env txsMap genBErr st =
     (if length (txsMap DelayTxType) > 0
      then serialExecuteTxs env (txsMap DelayTxType) genBErr st
      else (None, st))"

text \<open>The three serial phases: the first error ends \<^verbatim>\<open>ProcessTxs\<close>.\<close>

definition serialPhases ::
  "Env \<Rightarrow> (TxType \<Rightarrow> Transaction list) \<Rightarrow> error option \<Rightarrow> State \<Rightarrow> error option \<times> State" where
  "serialPhases env txsMap genBErr st =
     (case phaseStopNetwork env txsMap genBErr st of
        (Some err, st1) \<Rightarrow> (Some err, st1)
      | (None, st1) \<Rightarrow>
          (case phaseFirstBlock env genBErr st1 of
             (Some err, st2) \<Rightarrow> (Some err, st2)
           | (None, st2) \<Rightarrow> phaseDelay env txsMap genBErr st2))"

text \<open>
  The two parallel phases. \<open>None\<close>: the grouper does not return. After the groups have
  run, the grouper's variables are set back to their initial values.
\<close>

definition phaseTransferSelf ::
  "Env \<Rightarrow> (TxType \<Rightarrow> Transaction list) \<Rightarrow> error option \<Rightarrow> State \<Rightarrow> State option" where
  "phaseTransferSelf env txsMap genBErr st =
     (if length (txsMap TransferSelfTxType) > 0 then
        (case groupTransferSelfTxs (transferSelfGroup st) (txsMap TransferSelfTxType) [] of
           None \<Rightarrow> None
         | Some g \<Rightarrow>
             Some ((runGroups env (Schedule env (TxsGroupMap g)) genBErr
                      (st\<lparr>transferSelfGroup := g\<rparr>))
                   \<lparr>transferSelfGroup := initGroupState\<rparr>))
      else Some st)"

definition phaseUtxo ::
  "Env \<Rightarrow> (TxType \<Rightarrow> Transaction list) \<Rightarrow> error option \<Rightarrow> State \<Rightarrow> State option" where
  "phaseUtxo env txsMap genBErr st =
     (if length (txsMap UtxoTxType) > 0 \<or> length (txsMap SmartContractTxType) > 0 then
        (case groupUtxoTxs (utxoGroup st) (txsMap UtxoTxType) [] of
           None \<Rightarrow> None
         | Some g \<Rightarrow>
             (let g1 = (if length (txsMap SmartContractTxType) > 0
                        then g\<lparr>TxsGroupMap :=
                               AList.update 0 (txsMap SmartContractTxType) (TxsGroupMap g)\<rparr>
                        else g)
              in Some ((runGroups env (Schedule env (TxsGroupMap g1)) genBErr
                          (st\<lparr>utxoGroup := g1\<rparr>))
                       \<lparr>utxoGroup := initGroupState\<rparr>)))
      else Some st)"

text \<open>
  The body of \<^verbatim>\<open>ProcessTxs\<close> after the classification, up to its \<^verbatim>\<open>return\<close>.
\<close>

definition processBody ::
  "Env \<Rightarrow> (TxType \<Rightarrow> Transaction list) \<Rightarrow> error option \<Rightarrow> State \<Rightarrow>
   (error option \<times> State) option" where
  "processBody env txsMap genBErr st =
     (if \<not> GenBlock (blk st) \<and> \<not> IsGenesis (blk st) \<and> BlockSyncMethodSQLDML env then
        (if SysUpdate (blk st) then
           (case SysparSysUpdate env of
              Some err \<Rightarrow> Some (Some (ErrorfSyspar err), emit EvSysparSysUpdate st)
            | None \<Rightarrow> Some (None, emit EvSysparSysUpdate st))
         else Some (None, st))
      else
        (let keyIds = map KeyID (Transactions (blk st));
             st0 = emit (EvGetTxOutputs keyIds) st
         in case GetTxOutputs env keyIds of
              Some err \<Rightarrow> Some (Some err, st0)
            | None \<Rightarrow>
                (case serialPhases env txsMap genBErr st0 of
                   (Some err, st1) \<Rightarrow> Some (Some err, st1)
                 | (None, st1) \<Rightarrow>
                     (case phaseTransferSelf env txsMap genBErr st1 of
                        None \<Rightarrow> None
                      | Some st2 \<Rightarrow>
                          (case phaseUtxo env txsMap genBErr st2 of
                             None \<Rightarrow> None
                           | Some st3 \<Rightarrow> Some (None, st3))))))"

text \<open>The deferred function of \<^verbatim>\<open>ProcessTxs\<close>, run on the way out with the error returned.\<close>

definition deferred :: "Env \<Rightarrow> error option \<Rightarrow> error option \<Rightarrow> State \<Rightarrow> error option \<times> State" where
  "deferred env genBErr err st =
     (let st1 = (if IsGenesis (blk st) \<or> GenBlock (blk st)
                 then st\<lparr>blk := (blk st)\<lparr>AfterTxs := Some (afters st)\<rparr>\<rparr> else st);
          st2 = (if GenBlock (blk st1)
                 then st1\<lparr>blk := (blk st1)\<lparr>TxFullData := processedTx st1\<rparr>\<rparr> else st1);
          err1 = (case genBErr of Some e \<Rightarrow> Some e | None \<Rightarrow> err);
          st3 = emit EvAfterPlayTxs st2
      in case AfterPlayTxs env of
           Some errA \<Rightarrow>
             (case err1 of
                None \<Rightarrow> (Some errA, st3)
              | Some e \<Rightarrow> (Some (ErrorfBoth e errA), st3))
         | None \<Rightarrow> (err1, st3))"

text \<open>
  \<^verbatim>\<open>ProcessTxs\<close>. Its local \<^verbatim>\<open>genBErr\<close> is declared nil and handed by value to every
  call of \<^verbatim>\<open>serialExecuteTxs\<close>; nothing in \<^verbatim>\<open>ProcessTxs\<close> assigns to it.
\<close>

definition ProcessTxs :: "Env \<Rightarrow> State \<Rightarrow> (error option \<times> State) option" where
  "ProcessTxs env st =
     (let st0 = st\<lparr>afters := \<lparr>Rts = [], Txs = [], TxBinLogSql = []\<rparr>, processedTx := []\<rparr>;
          genBErr = None
      in case classify env allTxTypes (\<lambda>k. []) st0 of
           (txsMap, st1) \<Rightarrow>
             (case processBody env txsMap genBErr st1 of
                None \<Rightarrow> None
              | Some (err, st2) \<Rightarrow> Some (deferred env genBErr err st2)))"

subsection \<open>PlaySafe\<close>

text \<open>
  The loop of \<^verbatim>\<open>PlaySafe\<close> over the input transactions, after a failed \<^verbatim>\<open>ProcessTxs\<close>
  in generation mode with nothing accepted. \<open>banK\<close> holds the senders banned so far (the Go
  map is keyed by the decimal text of the key id). \<open>msg\<close> is the message of the error of
  \<^verbatim>\<open>ProcessTxs\<close>.
\<close>

fun banLoop ::
  "Env \<Rightarrow> string \<Rightarrow> Transaction list \<Rightarrow> int64 list \<Rightarrow> State \<Rightarrow> error option \<times> State" where
  "banLoop env msg [] banK st = (None, st)"
| "banLoop env msg (t # rest) banK st =
     (if KeyID t \<notin> set banK \<and> IsSmartContract t then
        banLoop env msg rest (KeyID t # banK) (emit (EvBadTxForBan (KeyID t)) st)
      else
        (case MarkTransactionBad env (Hash t) msg of
           Some err \<Rightarrow> (Some err, emit (EvMarkTransactionBad (Hash t) msg) st)
         | None \<Rightarrow> banLoop env msg rest banK (emit (EvMarkTransactionBad (Hash t) msg) st)))"

text \<open>\<^verbatim>\<open>for _, q := range b.Notifications { q.Send() }\<close>\<close>

fun sendAll :: "string list list \<Rightarrow> State \<Rightarrow> State" where
  "sendAll [] st = st"
| "sendAll (q # qs) st = sendAll qs (emit (EvSend q) st)"

text \<open>
  \<^verbatim>\<open>PlaySafe\<close>: the error it returns (\<open>None\<close> is nil) and the state it leaves, or \<open>None\<close>
  when it does not return.
\<close>

definition PlaySafe :: "Env \<Rightarrow> State \<Rightarrow> (error option \<times> State) option" where
  "PlaySafe env st =
     (case StartTransaction env of
        Some err \<Rightarrow> Some (Some err, emit EvStartTransaction st)
      | None \<Rightarrow>
          (let inputTx = Transactions (blk st)
           in case ProcessTxs env (emit EvStartTransaction st) of
                None \<Rightarrow> None
              | Some (Some err, st1) \<Rightarrow>
                  (let st2 = emit EvRollback st1
                   in if GenBlock (blk st2) \<and> length (TxFullData (blk st2)) = 0 then
                        (case banLoop env (Error (SentinelText env) err) inputTx [] st2 of
                           (Some errMark, st3) \<Rightarrow> Some (Some errMark, st3)
                         | (None, st3) \<Rightarrow> Some (Some err, st3))
                      else Some (Some err, st2))
              | Some (None, st1) \<Rightarrow>
                  if GenBlock (blk st1) \<and> length (TxFullData (blk st1)) = 0 then
                    Some (Some ErrEmptyBlock, emit EvCommit st1)
                  else
                    (case InsertIntoBlockchain env of
                       Some err \<Rightarrow> Some (Some err, emit EvRollback (emit EvInsertIntoBlockchain st1))
                     | None \<Rightarrow>
                         (let st2 = emit EvCommit (emit EvInsertIntoBlockchain st1)
                          in case Commit env of
                               Some err \<Rightarrow> Some (Some err, st2)
                             | None \<Rightarrow> Some (None, sendAll (Notifications (blk st2)) st2)))))"

text \<open>The state a block is played in: nothing called yet, the groupers' variables as declared.\<close>

definition initState :: "Block \<Rightarrow> State" where
  "initState b =
     \<lparr>blk = b, trace = [], afters = \<lparr>Rts = [], Txs = [], TxBinLogSql = []\<rparr>, processedTx = [],
      utxoGroup = initGroupState, transferSelfGroup = initGroupState\<rparr>"

section \<open>Notions used in the statements\<close>

text \<open>The accounts of a list of UTXO transactions: every sender and every recipient.\<close>

definition utxoAccounts :: "Transaction list \<Rightarrow> int64 list" where
  "utxoAccounts txs = concat (map (\<lambda>t. [KeyID t, ToID t]) txs)"

text \<open>
  In \<^verbatim>\<open>groupTransferSelfTxs\<close> the wallet holds the sender of the group's first
  transaction and nothing else: a transaction joins the group when its sender is that
  sender and is not 0.
\<close>

definition tsMatch :: "int64 \<Rightarrow> Transaction \<Rightarrow> bool" where
  "tsMatch k t = (KeyID t = k \<and> k \<noteq> 0)"

text \<open>Every group of a group map is a subsequence of \<open>orig\<close>.\<close>

definition allSubseq :: "(nat \<times> Transaction list) list \<Rightarrow> Transaction list \<Rightarrow> bool" where
  "allSubseq m orig = list_all (\<lambda>(k, grp). subseq grp orig) m"

text \<open>Every group of a group map is made of transactions of \<open>orig\<close>, each taken once.\<close>

definition allSubMset :: "(nat \<times> Transaction list) list \<Rightarrow> Transaction list \<Rightarrow> bool" where
  "allSubMset m orig = list_all (\<lambda>(k, grp). mset grp \<subseteq># mset orig) m"

text \<open>
  The wallet that goes with a group list: it holds the accounts of the list's transactions,
  each stored under itself.
\<close>

definition walletFor :: "wallet \<Rightarrow> Transaction list \<Rightarrow> bool" where
  "walletFor w gl \<longleftrightarrow> (\<forall>(k, v) \<in> set w. v = k) \<and> fst ` set w = set (utxoAccounts gl)"

text \<open>The test by which the UTXO sweep takes a transaction into the group.\<close>

definition utxoMatch :: "wallet \<Rightarrow> Transaction \<Rightarrow> bool" where
  "utxoMatch w t \<longleftrightarrow> walletGet w (KeyID t) \<noteq> 0 \<or> walletGet w (ToID t) \<noteq> 0"

text \<open>
  The account set of a group: senders and recipients for UTXO transactions, senders for
  TransferSelf transactions.
\<close>

definition utxoAccountSet :: "Transaction list \<Rightarrow> int64 set" where
  "utxoAccountSet G = set (utxoAccounts G)"

definition transferSelfAccountSet :: "Transaction list \<Rightarrow> int64 set" where
  "transferSelfAccountSet G = KeyID ` set G"

text \<open>Any two groups of a group map, under different keys, have no account in common.\<close>

definition groupsDisjoint ::
  "(Transaction list \<Rightarrow> int64 set) \<Rightarrow> (nat \<times> Transaction list) list \<Rightarrow> bool" where
  "groupsDisjoint accounts m \<longleftrightarrow>
     (\<forall>k k' G G'. k \<noteq> k' \<and> map_of m k = Some G \<and> map_of m k' = Some G' \<longrightarrow>
        accounts G \<inter> accounts G' = {})"

text \<open>No group of a group map has an account of the set \<open>A\<close>.\<close>

definition groupsApart ::
  "(Transaction list \<Rightarrow> int64 set) \<Rightarrow> (nat \<times> Transaction list) list \<Rightarrow> int64 set \<Rightarrow> bool" where
  "groupsApart accounts m A \<longleftrightarrow> (\<forall>k G. map_of m k = Some G \<longrightarrow> accounts G \<inter> A = {})"

text \<open>The notification queues sent in a trace, in order.\<close>

fun sends :: "event list \<Rightarrow> string list list" where
  "sends [] = []"
| "sends (EvSend q # es) = q # sends es"
| "sends (e # es) = sends es"

text \<open>The calls only \<^verbatim>\<open>PlaySafe\<close> itself makes.\<close>

fun outerEvent :: "event \<Rightarrow> bool" where
  "outerEvent (EvSend q) = True"
| "outerEvent EvCommit = True"
| "outerEvent EvRollback = True"
| "outerEvent EvStartTransaction = True"
| "outerEvent EvInsertIntoBlockchain = True"
| "outerEvent e = False"

text \<open>
  What \<^verbatim>\<open>ProcessTxs\<close> and everything below it leave alone: they only add calls to the trace,
  none of them one of \<^verbatim>\<open>PlaySafe\<close>'s own, and they keep the block's mode and its input.
\<close>

definition frame :: "State \<Rightarrow> State \<Rightarrow> bool" where
  "frame st st' \<longleftrightarrow>
     (\<exists>new. trace st' = trace st @ new \<and> \<not> list_ex outerEvent new) \<and>
     GenBlock (blk st') = GenBlock (blk st) \<and>
     IsGenesis (blk st') = IsGenesis (blk st) \<and>
     Transactions (blk st') = Transactions (blk st) \<and>
     ClassifyTxsMap (blk st') = ClassifyTxsMap (blk st)"

text \<open>The senders banned once the ban loop has gone through a list without a marking error.\<close>

fun bannedAfter :: "Transaction list \<Rightarrow> int64 list \<Rightarrow> int64 list" where
  "bannedAfter [] banK = banK"
| "bannedAfter (t # rest) banK =
     (if KeyID t \<notin> set banK \<and> IsSmartContract t then bannedAfter rest (KeyID t # banK)
      else bannedAfter rest banK)"

text \<open>The error the executor marks a rejected transaction with.\<close>

definition markedError :: "Env \<Rightarrow> bool \<Rightarrow> error \<Rightarrow> error" where
  "markedError env gen err =
     (if gen \<and> Contains (Error (SentinelText env) err) (Error (SentinelText env) ErrVMTimeLimit)
      then ErrVMTimeLimit else err)"

text \<open>
  The error \<^verbatim>\<open>ProcessTxs\<close> returns when its body returns \<^verbatim>\<open>ErrNetworkStopping\<close>: the
  deferred function composes it with the error of \<^verbatim>\<open>AfterPlayTxs\<close>, if there is one.
\<close>

definition stoppingError :: "Env \<Rightarrow> error" where
  "stoppingError env =
     (case AfterPlayTxs env of
        None \<Rightarrow> ErrNetworkStopping
      | Some errA \<Rightarrow> ErrorfBoth ErrNetworkStopping errA)"

text \<open>
  The calls \<open>new\<close> of a run of the executor that ended with \<open>res\<close>: if one of them is the play
  of a transaction whose \<^verbatim>\<open>Play\<close> returns \<^verbatim>\<open>ErrNetworkStopping\<close>, the run has ended with that
  error, and its last two calls are that play and \<^verbatim>\<open>PauseNodeActivity\<close>.
\<close>

definition stopOK :: "Env \<Rightarrow> event list \<Rightarrow> error option \<Rightarrow> bool" where
  "stopOK env new res \<longleftrightarrow>
     (\<forall>t. EvPlay t \<in> set new \<and> playErr (Play env t) = Some ErrNetworkStopping \<longrightarrow>
          res = Some ErrNetworkStopping \<and> (\<exists>pre. new = pre @ [EvPlay t, EvPauseNodeActivity]))"

text \<open>The error a round of the loop returns with, if it returns.\<close>

fun flowErr :: "Flow \<Rightarrow> error option" where
  "flowErr (Return e) = e"
| "flowErr fl = None"

text \<open>The senders registered for banning in a trace, and the hashes marked bad, in order.\<close>

fun bans :: "event list \<Rightarrow> int64 list" where
  "bans [] = []"
| "bans (EvBadTxForBan k # es) = k # bans es"
| "bans (e # es) = bans es"

fun marks :: "event list \<Rightarrow> bytes list" where
  "marks [] = []"
| "marks (EvMarkTransactionBad h msg # es) = h # marks es"
| "marks (e # es) = marks es"

text \<open>
  The transactions at which the ban loop registers a sender (a smart contract whose sender is
  not registered yet), and the others, which it marks.
\<close>

fun banTriggers :: "Transaction list \<Rightarrow> int64 list \<Rightarrow> Transaction list" where
  "banTriggers [] banK = []"
| "banTriggers (t # rest) banK =
     (if KeyID t \<notin> set banK \<and> IsSmartContract t then t # banTriggers rest (KeyID t # banK)
      else banTriggers rest banK)"

fun notTriggers :: "Transaction list \<Rightarrow> int64 list \<Rightarrow> Transaction list" where
  "notTriggers [] banK = []"
| "notTriggers (t # rest) banK =
     (if KeyID t \<notin> set banK \<and> IsSmartContract t then notTriggers rest (KeyID t # banK)
      else t # notTriggers rest banK)"

section \<open>Inputs used in the examples\<close>

text \<open>A UTXO transfer from \<open>k\<close> to \<open>t\<close>; the hash also serves as the raw data.\<close>

definition utxoTx :: "bytes \<Rightarrow> int64 \<Rightarrow> int64 \<Rightarrow> Transaction" where
  "utxoTx h k t = \<lparr>Hash = h, KeyID = k, ToID = t, IsSmartContract = False, FullData = h\<rparr>"

text \<open>A TransferSelf transaction of sender \<open>k\<close>.\<close>

definition tsTx :: "bytes \<Rightarrow> int64 \<Rightarrow> Transaction" where
  "tsTx h k = \<lparr>Hash = h, KeyID = k, ToID = 0, IsSmartContract = False, FullData = h\<rparr>"

text \<open>Message texts for the four sentinels.\<close>

fun sentinelText :: "error \<Rightarrow> string" where
  "sentinelText ErrNetworkStopping = ''network is stopping''"
| "sentinelText ErrLimitStop = ''limit stop''"
| "sentinelText ErrVMTimeLimit = ''time limit exceeded''"
| "sentinelText ErrEmptyBlock = ''empty block''"
| "sentinelText e = []"

text \<open>A \<^verbatim>\<open>Play\<close> that succeeds and leaves nothing behind.\<close>

definition playOK :: PlayResult where
  "playOK = \<lparr>playErr = None, playSysUpdate = False, playNotifications = [],
             playRollBackTx = [], playBinLogSql = []\<rparr>"

text \<open>Parsing raw bytes: the transaction of the list that has them as its \<^verbatim>\<open>FullData\<close>.\<close>

definition lookupTx :: "Transaction list \<Rightarrow> bytes \<Rightarrow> Unmarshalled" where
  "lookupTx txs raw =
     (case find (\<lambda>t. FullData t = raw) txs of
        Some t \<Rightarrow> Parsed t
      | None \<Rightarrow> ParseError None (ErrorNew ''unknown transaction''))"

text \<open>An environment in which every call succeeds and the groups run in map order.\<close>

definition envOK :: "Transaction list \<Rightarrow> Env" where
  "envOK txs =
     \<lparr>SentinelText = sentinelText, BlockSyncMethodSQLDML = False, StartTransaction = None,
      GetTxOutputs = (\<lambda>keyIds. None), Savepoint = (\<lambda>t. None), RollbackSavepoint = (\<lambda>t. None),
      Commit = None, UnmarshallTransaction = lookupTx txs, WithOption = (\<lambda>t. None),
      Play = (\<lambda>t. playOK), MarkTransactionBad = (\<lambda>h msg. None), SysparSysUpdate = None,
      AfterPlayTxs = None, InsertIntoBlockchain = None, Schedule = (\<lambda>groups. groups)\<rparr>"

text \<open>A \<^verbatim>\<open>Play\<close> that fails with \<open>e\<close> for the transaction of hash \<open>h\<close> and succeeds otherwise.\<close>

definition failing :: "bytes \<Rightarrow> error \<Rightarrow> Transaction \<Rightarrow> PlayResult" where
  "failing h e t = (if Hash t = h then playOK\<lparr>playErr := Some e\<rparr> else playOK)"

text \<open>A smart-contract transaction of sender \<open>k\<close>.\<close>

definition scTx :: "bytes \<Rightarrow> int64 \<Rightarrow> Transaction" where
  "scTx h k = \<lparr>Hash = h, KeyID = k, ToID = 0, IsSmartContract = True, FullData = h\<rparr>"

text \<open>A block in generation mode with no transactions.\<close>

definition emptyBlock :: Block where
  "emptyBlock = \<lparr>GenBlock = True, IsGenesis = False, SysUpdate = False, Transactions = [],
     ClassifyTxsMap = (\<lambda>k. []), Notifications = [], TxFullData = [], AfterTxs = None\<rparr>"

text \<open>A transaction of sender \<open>k\<close> that is not a smart contract.\<close>

definition delayTx :: "bytes \<Rightarrow> int64 \<Rightarrow> Transaction" where
  "delayTx h k = \<lparr>Hash = h, KeyID = k, ToID = 0, IsSmartContract = False, FullData = h\<rparr>"

text \<open>A block whose transactions are all of one kind, classified under it.\<close>

definition blockOf :: "bool \<Rightarrow> TxType \<Rightarrow> Transaction list \<Rightarrow> Block" where
  "blockOf gen kind txs =
     \<lparr>GenBlock = gen, IsGenesis = False, SysUpdate = False, Transactions = txs,
      ClassifyTxsMap = (\<lambda>k. if k = kind then map FullData txs else []),
      Notifications = [], TxFullData = [], AfterTxs = None\<rparr>"

text \<open>A \<^verbatim>\<open>Play\<close> that succeeds and queues one notification.\<close>

definition notifying :: "Transaction \<Rightarrow> PlayResult" where
  "notifying t = playOK\<lparr>playNotifications := [''note for '' @ Hash t]\<rparr>"

text \<open>A validated block of one smart-contract transaction that queues a notification.\<close>

definition envNotify :: Env where
  "envNotify = (envOK [scTx ''a'' 7])\<lparr>Play := notifying\<rparr>"

definition stNotify :: State where
  "stNotify = initState (blockOf False SmartContractTxType [scTx ''a'' 7])"

text \<open>
  A generated block of three transactions whose outputs cannot be loaded, with a
  transaction \<open>b\<close> that cannot be marked bad.
\<close>

definition envMarkFails :: Env where
  "envMarkFails =
     (envOK [scTx ''a'' 7, delayTx ''b'' 8, scTx ''c'' 9])
       \<lparr>GetTxOutputs := (\<lambda>keyIds. Some (ErrorNew ''no outputs'')),
        MarkTransactionBad :=
          (\<lambda>h msg. if h = ''b'' then Some (ErrorNew ''cannot mark'') else None)\<rparr>"

definition stMarkFails :: State where
  "stMarkFails =
     initState (blockOf True SmartContractTxType [scTx ''a'' 7, delayTx ''b'' 8, scTx ''c'' 9])"

text \<open>
  The generated block \<open>ok, bad, ok2\<close> of smart-contract transactions; the play of \<open>bad\<close>
  fails.
\<close>

definition txsC2 :: "Transaction list" where
  "txsC2 = [scTx ''ok'' 5, scTx ''bad'' 6, scTx ''ok2'' 7]"

definition envC2 :: Env where
  "envC2 = (envOK txsC2)\<lparr>Play := failing ''bad'' (ErrorNew ''boom'')\<rparr>"

definition blockC2 :: Block where
  "blockC2 = blockOf True SmartContractTxType txsC2"

text \<open>
  A generated block of two delay transactions; the play of the first fails.
\<close>

definition txsC1 :: "Transaction list" where
  "txsC1 = [delayTx ''bad'' 5, delayTx ''ok'' 6]"

definition envC1 :: Env where
  "envC1 = (envOK txsC1)\<lparr>Play := failing ''bad'' (ErrorNew ''boom'')\<rparr>"

definition stC1 :: State where
  "stC1 = initState (blockOf True DelayTxType txsC1)"

text \<open>
  A generated block of one smart-contract transaction whose outputs cannot be loaded.
\<close>

definition envC4 :: Env where
  "envC4 = (envOK [scTx ''a'' 7])\<lparr>GetTxOutputs := (\<lambda>keyIds. Some (ErrorNew ''no outputs''))\<rparr>"

definition stC4 :: State where
  "stC4 = initState (blockOf True SmartContractTxType [scTx ''a'' 7])"

text \<open>A validated block of one stop-network transaction.\<close>

definition envStop :: Env where
  "envStop = (envOK [delayTx ''stop'' 7])\<lparr>Play := failing ''stop'' ErrNetworkStopping\<rparr>"

definition stStop :: State where
  "stStop = initState (blockOf False StopNetworkTxType [delayTx ''stop'' 7])"

lemmas grouper_eval =
  groupUtxoTxs.simps utxoSweep.simps groupTransferSelfTxs.simps transferSelfSweep.simps
  initGroupState_def walletGet_def walletPut_def

lemmas play_eval =
  PlaySafe_def ProcessTxs_def processBody_def deferred_def serialPhases_def
  phaseStopNetwork_def phaseFirstBlock_def phaseDelay_def phaseTransferSelf_def phaseUtxo_def
  serialExecuteTxs_def execTx_def acceptTx_def rejectTx_def emit_def allTxTypes_def
  Contains_def initState_def Let_def sublist_code(3) prefix_code(2)
  grouper_eval

section \<open>The groupers: disjointness and order\<close>

text \<open>
  C3, as stated, fails for the account 0. The grouper tests whether an account is in the
  wallet by \<^verbatim>\<open>walletAddress[k] != 0\<close>, and it stores every account under itself, so the
  account 0 reads as absent even when it is in the wallet. Two transfers from the senders 1
  and 2 to the recipient 0 end in two groups, and both groups hold the account 0.
\<close>

theorem C3_account_zero_counterexample:
  "map_option TxsGroupMap (groupUtxoTxs initGroupState [utxoTx ''a'' 1 0, utxoTx ''b'' 2 0] []) =
     Some [(1, [utxoTx ''a'' 1 0]), (2, [utxoTx ''b'' 2 0])] \<and>
   set (utxoAccounts [utxoTx ''a'' 1 0]) \<inter> set (utxoAccounts [utxoTx ''b'' 2 0]) = {0}"
  by (simp add: grouper_eval utxoTx_def utxoAccounts_def)

lemma walletGet_single: "walletGet [(k, k)] a \<noteq> 0 \<longleftrightarrow> a = k \<and> k \<noteq> 0"
  by (simp add: walletGet_def)

lemma walletPut_single: "walletPut k k [(k, k)] = [(k, k)]"
  by (simp add: walletPut_def)

lemma transferSelfSweep_single:
  "w = [(k, k)] \<Longrightarrow> i \<le> length txs \<Longrightarrow>
   transferSelfSweep i txs w gl =
     (take i txs @ filter (\<lambda>t. \<not> tsMatch k t) (drop i txs), [(k, k)],
      gl @ filter (tsMatch k) (drop i txs))"
proof (induction i txs w gl rule: transferSelfSweep.induct)
  case (1 i txs w gl)
  note eq = transferSelfSweep.simps [of i txs w gl]
  show ?case
  proof (cases "i < length txs")
    case False
    with "1.prems" eq show ?thesis by simp
  next
    case inb: True
    from "1.prems" have nonempty: "length w \<noteq> 0" by simp
    have dr: "drop i txs = txs ! i # drop (Suc i) txs"
      using inb by (simp add: Cons_nth_drop_Suc)
    show ?thesis
    proof (cases "walletGet w (KeyID (txs ! i)) \<noteq> 0")
      case True
      with "1.prems" have m: "tsMatch k (txs ! i)" and kk: "KeyID (txs ! i) = k"
        by (simp_all add: walletGet_single tsMatch_def)
      have w': "walletPut (KeyID (txs ! i)) (KeyID (txs ! i)) w = [(k, k)]"
        using "1.prems" kk by (simp add: walletPut_single)
      have le: "i \<le> length (take i txs @ drop (Suc i) txs)" using inb by simp
      from "1.IH"(2) [OF inb nonempty True w' le] inb
      have "transferSelfSweep i (take i txs @ drop (Suc i) txs)
              (walletPut (KeyID (txs ! i)) (KeyID (txs ! i)) w) (gl @ [txs ! i]) =
            (take i txs @ filter (\<lambda>t. \<not> tsMatch k t) (drop (Suc i) txs), [(k, k)],
             (gl @ [txs ! i]) @ filter (tsMatch k) (drop (Suc i) txs))"
        by (simp add: min_def)
      with inb nonempty True eq m dr show ?thesis by simp
    next
      case False
      with "1.prems" have m: "\<not> tsMatch k (txs ! i)"
        by (simp add: walletGet_single tsMatch_def)
      from inb have le: "Suc i \<le> length txs" by simp
      from "1.IH"(3) [OF inb nonempty False "1.prems"(1) le]
      have "transferSelfSweep (Suc i) txs w gl =
            (take (Suc i) txs @ filter (\<lambda>t. \<not> tsMatch k t) (drop (Suc i) txs), [(k, k)],
             gl @ filter (tsMatch k) (drop (Suc i) txs))" .
      with inb nonempty False eq m dr show ?thesis
        by (simp add: take_Suc_conv_app_nth)
    qed
  qed
qed

lemma transferSelfSweep_first:
  "transferSelfSweep 0 (t # rest) [] gl =
     (filter (\<lambda>x. \<not> tsMatch (KeyID t) x) rest, [(KeyID t, KeyID t)],
      gl @ t # filter (tsMatch (KeyID t)) rest)"
proof -
  have "transferSelfSweep 0 (t # rest) [] gl =
        transferSelfSweep 0 rest [(KeyID t, KeyID t)] (gl @ [t])"
    by (subst transferSelfSweep.simps) (simp add: walletPut_def)
  then show ?thesis by (simp add: transferSelfSweep_single)
qed

lemma transferSelfSweep_again:
  "transferSelfSweep 0 (filter (\<lambda>x. \<not> tsMatch k x) rest) [(k, k)] gl =
     (filter (\<lambda>x. \<not> tsMatch k x) rest, [(k, k)], gl)"
  by (simp add: transferSelfSweep_single)

lemma set_AList_update: "set (AList.update k v al) \<subseteq> insert (k, v) (set al)"
  by (induction al) auto

lemma allSubseq_update:
  "allSubseq m orig \<Longrightarrow> subseq grp orig \<Longrightarrow> allSubseq (AList.update k grp m) orig"
  using set_AList_update [of k grp m] by (auto simp: allSubseq_def list_all_iff)

lemma groupTransferSelfTxs_order_aux:
  "length txs \<le> n \<Longrightarrow> allSubseq m orig \<Longrightarrow> subseq txs orig \<Longrightarrow>
   \<exists>g. groupTransferSelfTxs \<lparr>TxsGroupMap = m, GroupTxsList = [], GroupSerial = serial\<rparr> txs [] = Some g
     \<and> allSubseq (TxsGroupMap g) orig"
proof (induction n arbitrary: txs m serial)
  case 0
  then show ?case by (simp add: groupTransferSelfTxs.simps)
next
  case (Suc n)
  show ?case
  proof (cases txs)
    case Nil
    with Suc.prems show ?thesis by (simp add: groupTransferSelfTxs.simps)
  next
    case (Cons t rest)
    let ?k = "KeyID t"
    let ?rest' = "filter (\<lambda>x. \<not> tsMatch ?k x) rest"
    let ?grp = "t # filter (tsMatch ?k) rest"
    let ?m' = "AList.update (unat serial) ?grp m"
    have "subseq ?grp (t # rest)" by simp
    with Suc.prems(3) Cons have grp: "subseq ?grp orig" using subseq_order.trans by blast
    then have m': "allSubseq ?m' orig" using Suc.prems(2) by (rule allSubseq_update [rotated])
    show ?thesis
    proof (cases "?rest' = []")
      case True
      with Cons m' show ?thesis
        by (simp add: groupTransferSelfTxs.simps [of _ "t # rest"] transferSelfSweep_first)
    next
      case False
      have "subseq ?rest' (t # rest)" by (rule list_emb_Cons) simp
      with Suc.prems(3) Cons have r: "subseq ?rest' orig" using subseq_order.trans by blast
      have "length ?rest' \<le> length rest" by simp
      with Suc.prems(1) Cons have len: "length ?rest' \<le> n" by (simp del: length_filter_le)
      from Suc.IH [OF len m' r, of "serial + 1"] obtain g where
        g: "groupTransferSelfTxs \<lparr>TxsGroupMap = ?m', GroupTxsList = [], GroupSerial = serial + 1\<rparr> ?rest' [] = Some g"
           "allSubseq (TxsGroupMap g) orig" by blast
      have "groupTransferSelfTxs \<lparr>TxsGroupMap = m, GroupTxsList = [], GroupSerial = serial\<rparr> (t # rest) [] =
            groupTransferSelfTxs \<lparr>TxsGroupMap = m, GroupTxsList = ?grp, GroupSerial = serial\<rparr> ?rest' [(?k, ?k)]"
        using False by (subst groupTransferSelfTxs.simps) (simp add: transferSelfSweep_first)
      also have "\<dots> = groupTransferSelfTxs \<lparr>TxsGroupMap = ?m', GroupTxsList = [], GroupSerial = serial + 1\<rparr> ?rest' []"
        using False by (subst groupTransferSelfTxs.simps) (simp add: transferSelfSweep_again)
      finally show ?thesis using g Cons by simp
    qed
  qed
qed

lemma allSubMset_update:
  "allSubMset m orig \<Longrightarrow> mset grp \<subseteq># mset orig \<Longrightarrow> allSubMset (AList.update k grp m) orig"
  using set_AList_update [of k grp m] by (auto simp: allSubMset_def list_all_iff)

lemma groupUtxoTxs_mset_aux:
  "w = [] \<or> GroupTxsList g \<noteq> [] \<Longrightarrow> allSubMset (TxsGroupMap g) orig \<Longrightarrow>
   mset (GroupTxsList g) + mset txs \<subseteq># mset orig \<Longrightarrow>
   \<exists>g'. groupUtxoTxs g txs w = Some g' \<and> allSubMset (TxsGroupMap g') orig"
proof (induction g txs w rule: groupUtxoTxs.induct)
  case (1 g txs w)
  note eq = groupUtxoTxs.simps [of g txs w]
  show ?case
  proof (cases "length txs = 0")
    case True
    with "1.prems" eq show ?thesis by simp
  next
    case ne: False
    obtain txs' w' gl' where sw: "utxoSweep 0 txs w (GroupTxsList g) = (txs', w', gl')"
      by (cases "utxoSweep 0 txs w (GroupTxsList g)") auto
    from utxoSweep_split [OF sw] obtain ys where
      ys: "gl' = GroupTxsList g @ ys" "mset txs = mset txs' + mset ys" by auto
    with "1.prems"(3) have inv: "mset gl' + mset txs' \<subseteq># mset orig"
      by (simp add: ac_simps)
    have gl': "mset gl' \<subseteq># mset orig"
      using mset_subset_eq_add_left inv by (rule subset_mset.trans)
    have upd: "allSubMset (AList.update (unat (GroupSerial g)) gl' (TxsGroupMap g)) orig"
      using "1.prems"(2) gl' by (rule allSubMset_update)
    show ?thesis
    proof (cases "length (GroupTxsList g) < length gl'")
      case grow: True
      show ?thesis
      proof (cases "length txs' = 0")
        case True
        with ne sw grow eq upd show ?thesis by simp
      next
        case False
        from grow have "w' = [] \<or> GroupTxsList (g\<lparr>GroupTxsList := gl'\<rparr>) \<noteq> []" by auto
        from "1.IH"(1) [OF ne sw [symmetric] refl grow False this] "1.prems"(2) inv
        obtain g' where "groupUtxoTxs (g\<lparr>GroupTxsList := gl'\<rparr>) txs' w' = Some g'"
          "allSubMset (TxsGroupMap g') orig" by auto
        with ne sw grow False eq show ?thesis by simp
      qed
    next
      case nogrow: False
      have pos: "0 < length gl'"
      proof (rule ccontr)
        assume "\<not> 0 < length gl'"
        with ys(1) have "GroupTxsList g = []" by simp
        with "1.prems"(1) have "w = []" by simp
        with sw ne have "length (GroupTxsList g) < length gl'"
          using utxoSweep_seed [of txs "GroupTxsList g" txs' w' gl'] by simp
        with nogrow show False by simp
      qed
      have "mset txs' \<subseteq># mset orig"
        using mset_subset_eq_add_right inv by (rule subset_mset.trans)
      with "1.IH"(2) [OF ne sw [symmetric] refl nogrow pos] upd
      obtain g' where
        "groupUtxoTxs
           (g\<lparr>TxsGroupMap := AList.update (unat (GroupSerial g)) gl' (TxsGroupMap g),
              GroupSerial := GroupSerial g + 1, GroupTxsList := []\<rparr>) txs' [] = Some g'"
        "allSubMset (TxsGroupMap g') orig" by auto
      with ne sw nogrow pos eq show ?thesis by simp
    qed
  qed
qed

text \<open>
  Called with an empty wallet, as \<^verbatim>\<open>ProcessTxs\<close> calls them, the groupers return, whatever
  the module-level variables hold.
\<close>

lemma groupUtxoTxs_returns:
  "w = [] \<or> GroupTxsList g \<noteq> [] \<Longrightarrow> \<exists>g'. groupUtxoTxs g txs w = Some g'"
proof (induction g txs w rule: groupUtxoTxs.induct)
  case (1 g txs w)
  note eq = groupUtxoTxs.simps [of g txs w]
  show ?case
  proof (cases "length txs = 0")
    case True
    with eq show ?thesis by simp
  next
    case ne: False
    obtain txs' w' gl' where sw: "utxoSweep 0 txs w (GroupTxsList g) = (txs', w', gl')"
      by (cases "utxoSweep 0 txs w (GroupTxsList g)") auto
    from utxoSweep_split [OF sw] obtain ys where ys: "gl' = GroupTxsList g @ ys" by auto
    show ?thesis
    proof (cases "length (GroupTxsList g) < length gl'")
      case grow: True
      show ?thesis
      proof (cases "length txs' = 0")
        case True
        with ne sw grow eq show ?thesis by simp
      next
        case False
        from grow have "w' = [] \<or> GroupTxsList (g\<lparr>GroupTxsList := gl'\<rparr>) \<noteq> []" by auto
        from "1.IH"(1) [OF ne sw [symmetric] refl grow False this]
        obtain g' where "groupUtxoTxs (g\<lparr>GroupTxsList := gl'\<rparr>) txs' w' = Some g'" by auto
        with ne sw grow False eq show ?thesis by simp
      qed
    next
      case nogrow: False
      have pos: "0 < length gl'"
      proof (rule ccontr)
        assume "\<not> 0 < length gl'"
        with ys have "GroupTxsList g = []" by simp
        with "1.prems" have "w = []" by simp
        with sw ne have "length (GroupTxsList g) < length gl'"
          using utxoSweep_seed [of txs "GroupTxsList g" txs' w' gl'] by simp
        with nogrow show False by simp
      qed
      from "1.IH"(2) [OF ne sw [symmetric] refl nogrow pos]
      obtain g' where
        "groupUtxoTxs
           (g\<lparr>TxsGroupMap := AList.update (unat (GroupSerial g)) gl' (TxsGroupMap g),
              GroupSerial := GroupSerial g + 1, GroupTxsList := []\<rparr>) txs' [] = Some g'"
        by auto
      with ne sw nogrow pos eq show ?thesis by simp
    qed
  qed
qed

lemma groupTransferSelfTxs_returns:
  "w = [] \<or> GroupTxsList g \<noteq> [] \<Longrightarrow> \<exists>g'. groupTransferSelfTxs g txs w = Some g'"
proof (induction g txs w rule: groupTransferSelfTxs.induct)
  case (1 g txs w)
  note eq = groupTransferSelfTxs.simps [of g txs w]
  show ?case
  proof (cases "length txs = 0")
    case True
    with eq show ?thesis by simp
  next
    case ne: False
    obtain txs' w' gl' where sw: "transferSelfSweep 0 txs w (GroupTxsList g) = (txs', w', gl')"
      by (cases "transferSelfSweep 0 txs w (GroupTxsList g)") auto
    from transferSelfSweep_split [OF sw] obtain ys where ys: "gl' = GroupTxsList g @ ys" by auto
    show ?thesis
    proof (cases "length (GroupTxsList g) < length gl'")
      case grow: True
      show ?thesis
      proof (cases "length txs' = 0")
        case True
        with ne sw grow eq show ?thesis by simp
      next
        case False
        from grow have "w' = [] \<or> GroupTxsList (g\<lparr>GroupTxsList := gl'\<rparr>) \<noteq> []" by auto
        from "1.IH"(1) [OF ne sw [symmetric] refl grow False this]
        obtain g' where "groupTransferSelfTxs (g\<lparr>GroupTxsList := gl'\<rparr>) txs' w' = Some g'" by auto
        with ne sw grow False eq show ?thesis by simp
      qed
    next
      case nogrow: False
      have pos: "0 < length gl'"
      proof (rule ccontr)
        assume "\<not> 0 < length gl'"
        with ys have "GroupTxsList g = []" by simp
        with "1.prems" have "w = []" by simp
        with sw ne have "length (GroupTxsList g) < length gl'"
          using transferSelfSweep_seed [of txs "GroupTxsList g" txs' w' gl'] by simp
        with nogrow show False by simp
      qed
      from "1.IH"(2) [OF ne sw [symmetric] refl nogrow pos]
      obtain g' where
        "groupTransferSelfTxs
           (g\<lparr>TxsGroupMap := AList.update (unat (GroupSerial g)) gl' (TxsGroupMap g),
              GroupSerial := GroupSerial g + 1, GroupTxsList := []\<rparr>) txs' [] = Some g'"
        by auto
      with ne sw nogrow pos eq show ?thesis by simp
    qed
  qed
qed

lemma utxoAccounts_append [simp]: "utxoAccounts (xs @ ys) = utxoAccounts xs @ utxoAccounts ys"
  by (simp add: utxoAccounts_def)

lemma utxoAccounts_Cons [simp]: "utxoAccounts (t # ts) = KeyID t # ToID t # utxoAccounts ts"
  by (simp add: utxoAccounts_def)

lemma utxoAccounts_Nil [simp]: "utxoAccounts [] = []"
  by (simp add: utxoAccounts_def)

lemma set_utxoAccounts: "set (utxoAccounts txs) = (\<Union>t \<in> set txs. {KeyID t, ToID t})"
  by (induction txs) auto

lemma walletGet_walletFor:
  assumes "walletFor w gl"
  shows "walletGet w a \<noteq> 0 \<longleftrightarrow> a \<in> set (utxoAccounts gl) \<and> a \<noteq> 0"
proof (cases "map_of w a")
  case None
  then have "a \<notin> fst ` set w" by (simp add: map_of_eq_None_iff)
  with assms None show ?thesis by (simp add: walletGet_def walletFor_def)
next
  case (Some v)
  then have in_w: "(a, v) \<in> set w" by (rule map_of_SomeD)
  with assms have "v = a" by (auto simp: walletFor_def)
  moreover from in_w have "a \<in> fst ` set w" by force
  ultimately show ?thesis using assms Some by (simp add: walletGet_def walletFor_def)
qed

lemma walletFor_put:
  assumes "walletFor w gl"
  shows "walletFor (walletPut (ToID t) (ToID t) (walletPut (KeyID t) (KeyID t) w)) (gl @ [t])"
proof -
  have "set (AList.update k v al) \<subseteq> insert (k, v) (set al)" for k v and al :: wallet
    by (induction al) auto
  then have step: "\<forall>(k, v) \<in> set (walletPut a a w'). v = k"
    if "\<forall>(k, v) \<in> set w'. v = k" for a w'
    using that unfolding walletPut_def by blast
  from assms have "\<forall>(k, v) \<in> set w. v = k" by (simp add: walletFor_def)
  then have "\<forall>(k, v) \<in> set (walletPut (KeyID t) (KeyID t) w). v = k" by (rule step)
  then have 1: "\<forall>(k, v) \<in> set (walletPut (ToID t) (ToID t) (walletPut (KeyID t) (KeyID t) w)). v = k"
    by (rule step)
  have 2: "fst ` set (walletPut (ToID t) (ToID t) (walletPut (KeyID t) (KeyID t) w)) =
           set (utxoAccounts (gl @ [t]))"
    using assms by (auto simp: walletPut_def dom_update walletFor_def)
  from 1 2 show ?thesis by (simp add: walletFor_def)
qed

lemma utxoSweep_walletFor:
  "utxoSweep i txs w gl = (txs', w', gl') \<Longrightarrow> walletFor w gl \<Longrightarrow> walletFor w' gl'"
proof (induction i txs w gl rule: utxoSweep.induct)
  case (1 i txs w gl)
  note eq = utxoSweep.simps [of i txs w gl]
  let ?w' = "walletPut (ToID (txs ! i)) (ToID (txs ! i))
              (walletPut (KeyID (txs ! i)) (KeyID (txs ! i)) w)"
  have wf': "walletFor ?w' (gl @ [txs ! i])" using "1.prems"(2) by (rule walletFor_put)
  show ?case
  proof (cases "i < length txs")
    case False
    with "1.prems" eq show ?thesis by simp
  next
    case inb: True
    show ?thesis
    proof (cases "length w = 0")
      case True
      with inb "1.prems"(1) eq have
        "utxoSweep i (tl txs) ?w' (gl @ [txs ! i]) = (txs', w', gl')" by simp
      from "1.IH"(1) [OF inb True this wf'] show ?thesis .
    next
      case nonempty: False
      show ?thesis
      proof (cases "walletGet w (KeyID (txs ! i)) \<noteq> 0 \<or> walletGet w (ToID (txs ! i)) \<noteq> 0")
        case True
        with inb nonempty "1.prems"(1) eq have
          "utxoSweep i (take i txs @ drop (Suc i) txs) ?w' (gl @ [txs ! i]) = (txs', w', gl')"
          by auto
        from "1.IH"(2) [OF inb nonempty True this wf'] show ?thesis .
      next
        case False
        with inb nonempty "1.prems"(1) eq have "utxoSweep (Suc i) txs w gl = (txs', w', gl')"
          by auto
        from "1.IH"(3) [OF inb nonempty False this "1.prems"(2)] show ?thesis .
      qed
    qed
  qed
qed

lemma utxoSweep_nothing_taken:
  "utxoSweep i txs w gl = (txs', w', gl') \<Longrightarrow> w \<noteq> [] \<Longrightarrow> length gl' = length gl \<Longrightarrow>
   txs' = txs \<and> (\<forall>j. i \<le> j \<and> j < length txs \<longrightarrow> \<not> utxoMatch w (txs ! j))"
proof (induction i txs w gl rule: utxoSweep.induct)
  case (1 i txs w gl)
  note eq = utxoSweep.simps [of i txs w gl]
  let ?w' = "walletPut (ToID (txs ! i)) (ToID (txs ! i))
              (walletPut (KeyID (txs ! i)) (KeyID (txs ! i)) w)"
  show ?case
  proof (cases "i < length txs")
    case False
    with "1.prems" eq show ?thesis by auto
  next
    case inb: True
    from "1.prems"(2) have nonempty: "length w \<noteq> 0" by simp
    show ?thesis
    proof (cases "walletGet w (KeyID (txs ! i)) \<noteq> 0 \<or> walletGet w (ToID (txs ! i)) \<noteq> 0")
      case True
      with inb nonempty "1.prems"(1) eq have
        sw: "utxoSweep i (take i txs @ drop (Suc i) txs) ?w' (gl @ [txs ! i]) = (txs', w', gl')"
        by auto
      from utxoSweep_split [OF sw] obtain ys where "gl' = (gl @ [txs ! i]) @ ys" by auto
      with "1.prems"(3) show ?thesis by simp
    next
      case False
      with inb nonempty "1.prems"(1) eq have "utxoSweep (Suc i) txs w gl = (txs', w', gl')"
        by auto
      from "1.IH"(3) [OF inb nonempty False this "1.prems"(2,3)]
      have r: "txs' = txs" "\<forall>j. Suc i \<le> j \<and> j < length txs \<longrightarrow> \<not> utxoMatch w (txs ! j)"
        by simp_all
      from False have "\<not> utxoMatch w (txs ! i)" by (simp add: utxoMatch_def)
      with r show ?thesis by (metis Suc_leI le_neq_implies_less)
    qed
  qed
qed

lemma utxoSweep_accounts:
  assumes "utxoSweep 0 txs w gl = (txs', w', gl')"
  shows "set (utxoAccounts gl') \<union> set (utxoAccounts txs') =
         set (utxoAccounts gl) \<union> set (utxoAccounts txs)"
proof -
  from utxoSweep_split [OF assms] obtain ys where
    ys: "gl' = gl @ ys" "mset txs = mset txs' + mset ys" by auto
  from ys(2) have "set txs = set txs' \<union> set ys" by (metis set_mset_mset set_mset_union)
  with ys(1) show ?thesis by (auto simp: set_utxoAccounts)
qed

lemma groupsDisjoint_update:
  "groupsDisjoint acc m \<Longrightarrow> groupsApart acc m (acc G) \<Longrightarrow>
   groupsDisjoint acc (AList.update k G m)"
  unfolding groupsDisjoint_def groupsApart_def update_conv'
  by (auto split: if_splits) blast+

lemma groupsApart_update:
  "groupsApart acc m A \<Longrightarrow> acc G \<inter> A = {} \<Longrightarrow> groupsApart acc (AList.update k G m) A"
  unfolding groupsApart_def update_conv' by (auto split: if_splits)

lemma groupsApart_mono: "groupsApart acc m A \<Longrightarrow> B \<subseteq> A \<Longrightarrow> groupsApart acc m B"
  unfolding groupsApart_def by blast

lemma groupUtxoTxs_disjoint_aux:
  "walletFor w (GroupTxsList g) \<Longrightarrow> groupsDisjoint utxoAccountSet (TxsGroupMap g) \<Longrightarrow>
   groupsApart utxoAccountSet (TxsGroupMap g) (set (utxoAccounts (GroupTxsList g)) \<union> set (utxoAccounts txs)) \<Longrightarrow>
   0 \<notin> set (utxoAccounts txs) \<Longrightarrow> groupUtxoTxs g txs w = Some g' \<Longrightarrow>
   groupsDisjoint utxoAccountSet (TxsGroupMap g')"
proof (induction g txs w rule: groupUtxoTxs.induct)
  case (1 g txs w)
  note eq = groupUtxoTxs.simps [of g txs w]
  let ?gl = "GroupTxsList g"
  let ?m = "TxsGroupMap g"
  show ?case
  proof (cases "length txs = 0")
    case True
    with "1.prems" eq show ?thesis by simp
  next
    case ne: False
    obtain txs' w' gl' where sw: "utxoSweep 0 txs w ?gl = (txs', w', gl')"
      by (cases "utxoSweep 0 txs w ?gl") auto
    note acc = utxoSweep_accounts [OF sw]
    from utxoSweep_walletFor [OF sw "1.prems"(1)] have wf': "walletFor w' gl'" .
    from "1.prems"(3) acc have apart': "groupsApart utxoAccountSet ?m (set (utxoAccounts gl') \<union> set (utxoAccounts txs'))"
      by simp
    then have apart_gl: "groupsApart utxoAccountSet ?m (set (utxoAccounts gl'))"
      by (rule groupsApart_mono) simp
    from apart' have apart_txs: "groupsApart utxoAccountSet ?m (set (utxoAccounts txs'))"
      by (rule groupsApart_mono) simp
    have upd: "groupsDisjoint utxoAccountSet (AList.update (unat (GroupSerial g)) gl' ?m)"
      using "1.prems"(2) apart_gl unfolding utxoAccountSet_def [symmetric]
      by (rule groupsDisjoint_update)
    from utxoSweep_split [OF sw] obtain ys where
      ys: "gl' = ?gl @ ys" "mset txs = mset txs' + mset ys" by auto
    from ys(2) have "set txs' \<subseteq> set txs" by (metis set_mset_mset set_mset_union Un_upper1)
    with "1.prems"(4) have nz': "0 \<notin> set (utxoAccounts txs')" by (auto simp: set_utxoAccounts)
    show ?thesis
    proof (cases "length ?gl < length gl'")
      case grow: True
      show ?thesis
      proof (cases "length txs' = 0")
        case True
        with ne sw grow eq "1.prems"(5) upd show ?thesis by auto
      next
        case False
        from ne sw grow False eq "1.prems"(5) have
          r: "groupUtxoTxs (g\<lparr>GroupTxsList := gl'\<rparr>) txs' w' = Some g'" by simp
        from "1.IH"(1) [OF ne sw [symmetric] refl grow False _ _ _ nz' r] wf' "1.prems"(2) apart'
        show ?thesis by simp
      qed
    next
      case nogrow: False
      with ys(1) have same: "gl' = ?gl" "ys = []" by simp_all
      show ?thesis
      proof (cases "0 < length gl'")
        case False
        with ne sw nogrow eq "1.prems"(5) show ?thesis by simp
      next
        case pos: True
        have wne: "w \<noteq> []"
        proof
          assume "w = []"
          with sw ne have "length ?gl < length gl'"
            using utxoSweep_seed [of txs ?gl txs' w' gl'] by simp
          with nogrow show False by simp
        qed
        from utxoSweep_nothing_taken [OF sw wne] same have
          nt: "txs' = txs" "\<forall>j. j < length txs \<longrightarrow> \<not> utxoMatch w (txs ! j)" by simp_all
        have "set (utxoAccounts gl') \<inter> set (utxoAccounts txs') = {}"
        proof (rule ccontr)
          assume "set (utxoAccounts gl') \<inter> set (utxoAccounts txs') \<noteq> {}"
          then obtain a where a: "a \<in> set (utxoAccounts ?gl)" "a \<in> set (utxoAccounts txs)"
            using same nt(1) by auto
          from a(2) obtain t where t: "t \<in> set txs" "a = KeyID t \<or> a = ToID t"
            by (auto simp: set_utxoAccounts)
          from a(2) "1.prems"(4) have "a \<noteq> 0" by auto
          with a(1) walletGet_walletFor [OF "1.prems"(1), of a] have "walletGet w a \<noteq> 0" by simp
          with t(2) have "utxoMatch w t" by (auto simp: utxoMatch_def)
          moreover from t(1) obtain j where "j < length txs" "txs ! j = t"
            by (auto simp: in_set_conv_nth)
          ultimately show False using nt(2) by auto
        qed
        then have "utxoAccountSet gl' \<inter> set (utxoAccounts txs') = {}"
          by (simp add: utxoAccountSet_def)
        with apart_txs have apart2:
          "groupsApart utxoAccountSet (AList.update (unat (GroupSerial g)) gl' ?m) (set (utxoAccounts txs'))"
          by (rule groupsApart_update)
        from ne sw nogrow pos eq "1.prems"(5) have
          r: "groupUtxoTxs
                (g\<lparr>TxsGroupMap := AList.update (unat (GroupSerial g)) gl' ?m,
                   GroupSerial := GroupSerial g + 1, GroupTxsList := []\<rparr>) txs' [] = Some g'"
          by simp
        have wf0: "walletFor [] []" by (simp add: walletFor_def)
        from "1.IH"(2) [OF ne sw [symmetric] refl nogrow pos _ _ _ nz' r] wf0 upd apart2
        show ?thesis by simp
      qed
    qed
  qed
qed

lemma groupUtxoTxs_disjoint_nonzero:
  assumes "0 \<notin> set (utxoAccounts txs)"
  shows "\<exists>g. groupUtxoTxs initGroupState txs [] = Some g \<and> groupsDisjoint utxoAccountSet (TxsGroupMap g)"
proof -
  from groupUtxoTxs_returns [of "[]" initGroupState txs] obtain g where
    g: "groupUtxoTxs initGroupState txs [] = Some g" by auto
  have "groupsDisjoint utxoAccountSet (TxsGroupMap g)"
    by (rule groupUtxoTxs_disjoint_aux [OF _ _ _ assms g])
       (simp_all add: walletFor_def groupsDisjoint_def groupsApart_def initGroupState_def)
  with g show ?thesis by blast
qed

lemma groupTransferSelfTxs_disjoint_aux:
  "length txs \<le> n \<Longrightarrow> groupsDisjoint transferSelfAccountSet m \<Longrightarrow>
   groupsApart transferSelfAccountSet m (KeyID ` set txs) \<Longrightarrow> 0 \<notin> KeyID ` set txs \<Longrightarrow>
   \<exists>g. groupTransferSelfTxs \<lparr>TxsGroupMap = m, GroupTxsList = [], GroupSerial = serial\<rparr> txs [] = Some g
     \<and> groupsDisjoint transferSelfAccountSet (TxsGroupMap g)"
proof (induction n arbitrary: txs m serial)
  case 0
  then show ?case by (simp add: groupTransferSelfTxs.simps)
next
  case (Suc n)
  show ?case
  proof (cases txs)
    case Nil
    with Suc.prems show ?thesis by (simp add: groupTransferSelfTxs.simps)
  next
    case (Cons t rest)
    let ?k = "KeyID t"
    let ?rest' = "filter (\<lambda>x. \<not> tsMatch ?k x) rest"
    let ?grp = "t # filter (tsMatch ?k) rest"
    let ?m' = "AList.update (unat serial) ?grp m"
    from Suc.prems(4) Cons have k0: "?k \<noteq> 0" by auto
    have "KeyID ` set (filter (tsMatch ?k) rest) \<subseteq> {?k}"
      by (auto simp: tsMatch_def)
    then have accs: "transferSelfAccountSet ?grp = {?k}"
      unfolding transferSelfAccountSet_def by auto
    have "{?k} \<subseteq> KeyID ` set txs" using Cons by simp
    with Suc.prems(3) have "groupsApart transferSelfAccountSet m {?k}"
      by (rule groupsApart_mono)
    with accs have "groupsApart transferSelfAccountSet m (transferSelfAccountSet ?grp)" by simp
    with Suc.prems(2) have m': "groupsDisjoint transferSelfAccountSet ?m'"
      by (rule groupsDisjoint_update)
    show ?thesis
    proof (cases "?rest' = []")
      case True
      with Cons m' show ?thesis
        by (simp add: groupTransferSelfTxs.simps [of _ "t # rest"] transferSelfSweep_first)
    next
      case False
      have "length ?rest' \<le> length rest" by simp
      with Suc.prems(1) Cons have len: "length ?rest' \<le> n" by (simp del: length_filter_le)
      have sub: "KeyID ` set ?rest' \<subseteq> KeyID ` set txs" using Cons by auto
      with Suc.prems(3) have "groupsApart transferSelfAccountSet m (KeyID ` set ?rest')"
        by (rule groupsApart_mono)
      moreover have "?k \<notin> KeyID ` set ?rest'"
        using k0 by (auto simp: tsMatch_def)
      then have "transferSelfAccountSet ?grp \<inter> KeyID ` set ?rest' = {}"
        unfolding accs by simp
      ultimately have ap: "groupsApart transferSelfAccountSet ?m' (KeyID ` set ?rest')"
        by (rule groupsApart_update)
      from Suc.prems(4) sub have nz: "0 \<notin> KeyID ` set ?rest'" by blast
      from Suc.IH [OF len m' ap nz, of "serial + 1"] obtain g where
        g: "groupTransferSelfTxs \<lparr>TxsGroupMap = ?m', GroupTxsList = [], GroupSerial = serial + 1\<rparr> ?rest' [] = Some g"
           "groupsDisjoint transferSelfAccountSet (TxsGroupMap g)" by blast
      have "groupTransferSelfTxs \<lparr>TxsGroupMap = m, GroupTxsList = [], GroupSerial = serial\<rparr> (t # rest) [] =
            groupTransferSelfTxs \<lparr>TxsGroupMap = m, GroupTxsList = ?grp, GroupSerial = serial\<rparr> ?rest' [(?k, ?k)]"
        using False by (subst groupTransferSelfTxs.simps) (simp add: transferSelfSweep_first)
      also have "\<dots> = groupTransferSelfTxs \<lparr>TxsGroupMap = ?m', GroupTxsList = [], GroupSerial = serial + 1\<rparr> ?rest' []"
        using False by (subst groupTransferSelfTxs.simps) (simp add: transferSelfSweep_again)
      finally show ?thesis using g Cons by simp
    qed
  qed
qed

lemma groupTransferSelfTxs_disjoint_nonzero:
  assumes "0 \<notin> KeyID ` set txs"
  shows "\<exists>g. groupTransferSelfTxs initGroupState txs [] = Some g \<and>
             groupsDisjoint transferSelfAccountSet (TxsGroupMap g)"
proof -
  have 1: "groupsDisjoint transferSelfAccountSet []" by (simp add: groupsDisjoint_def)
  have 2: "groupsApart transferSelfAccountSet [] (KeyID ` set txs)" by (simp add: groupsApart_def)
  from groupTransferSelfTxs_disjoint_aux [OF le_refl 1 2 assms, of 1]
  show ?thesis by (simp add: initGroupState_def)
qed

text \<open>
  C3, amended. When no account of the input is 0, the grouper returns and any two groups it
  has produced have disjoint account sets: for UTXO transactions the accounts are the senders
  and the recipients, for TransferSelf transactions the senders. The groupers are started as
  \<^verbatim>\<open>ProcessTxs\<close> starts them: module variables as declared, empty wallet.
\<close>

theorem C3_groups_disjoint:
  "(0 \<notin> set (utxoAccounts txs) \<longrightarrow>
      (\<exists>g. groupUtxoTxs initGroupState txs [] = Some g \<and>
           groupsDisjoint utxoAccountSet (TxsGroupMap g))) \<and>
   (0 \<notin> KeyID ` set txs \<longrightarrow>
      (\<exists>g. groupTransferSelfTxs initGroupState txs [] = Some g \<and>
           groupsDisjoint transferSelfAccountSet (TxsGroupMap g)))"
  using groupUtxoTxs_disjoint_nonzero groupTransferSelfTxs_disjoint_nonzero by blast

text \<open>
  C3, amended, at the UTXO transfers 1 to 2, 3 to 4, 1 to 5 and at TransferSelf
  transactions of the senders 1, 2, 1.
\<close>

theorem C3_groups_disjoint_witness:
  "map_option TxsGroupMap
     (groupUtxoTxs initGroupState [utxoTx ''ab'' 1 2, utxoTx ''cd'' 3 4, utxoTx ''ae'' 1 5] []) =
     Some [(1, [utxoTx ''ab'' 1 2, utxoTx ''ae'' 1 5]), (2, [utxoTx ''cd'' 3 4])] \<and>
   utxoAccountSet [utxoTx ''ab'' 1 2, utxoTx ''ae'' 1 5] \<inter> utxoAccountSet [utxoTx ''cd'' 3 4] = {} \<and>
   map_option TxsGroupMap
     (groupTransferSelfTxs initGroupState [tsTx ''a'' 1, tsTx ''b'' 2, tsTx ''c'' 1] []) =
     Some [(1, [tsTx ''a'' 1, tsTx ''c'' 1]), (2, [tsTx ''b'' 2])] \<and>
   transferSelfAccountSet [tsTx ''a'' 1, tsTx ''c'' 1] \<inter> transferSelfAccountSet [tsTx ''b'' 2] = {}"
  using C3_groups_disjoint [of "[utxoTx ''ab'' 1 2, utxoTx ''cd'' 3 4, utxoTx ''ae'' 1 5]"]
    C3_groups_disjoint [of "[tsTx ''a'' 1, tsTx ''b'' 2, tsTx ''c'' 1]"]
  by (simp add: grouper_eval utxoTx_def tsTx_def utxoAccountSet_def transferSelfAccountSet_def
      utxoAccounts_def)

text \<open>
  The TransferSelf grouper keeps the order of the input. Started as \<^verbatim>\<open>ProcessTxs\<close> starts it
  (module variables as declared, empty wallet), it returns, and every group is a subsequence
  of the input: the wallet holds one account from the seed on, so one sweep collects the
  whole group.
\<close>

lemma groupTransferSelfTxs_keeps_order:
  "\<exists>g. groupTransferSelfTxs initGroupState txs [] = Some g \<and>
       (\<forall>(k, grp) \<in> set (TxsGroupMap g). subseq grp txs)"
proof -
  have "allSubseq [] txs" by (simp add: allSubseq_def)
  from groupTransferSelfTxs_order_aux [OF le_refl this subseq_order.refl, of 1]
  show ?thesis by (simp add: initGroupState_def allSubseq_def list_all_iff)
qed

text \<open>
  The UTXO grouper: every group is made of transactions of the input, each taken at most as
  often as the input has it.
\<close>

lemma groupUtxoTxs_takes_from_input:
  "\<exists>g. groupUtxoTxs initGroupState txs [] = Some g \<and>
       (\<forall>(k, grp) \<in> set (TxsGroupMap g). mset grp \<subseteq># mset txs)"
proof -
  have "allSubMset (TxsGroupMap initGroupState) txs"
    by (simp add: allSubMset_def initGroupState_def)
  from groupUtxoTxs_mset_aux [OF _ this, of "[]" txs]
  show ?thesis by (simp add: initGroupState_def allSubMset_def list_all_iff)
qed

text \<open>
  One sweep of the UTXO grouper keeps the order: what it appends to the group list is a
  subsequence of the list it reads. The order can only be lost between two sweeps of the
  same group.
\<close>

lemma utxoSweep_keeps_order:
  "utxoSweep i txs w gl = (txs', w', gl') \<Longrightarrow> (length w = 0 \<Longrightarrow> i = 0) \<Longrightarrow>
   \<exists>ys. gl' = gl @ ys \<and> subseq ys (drop i txs)"
proof (induction i txs w gl rule: utxoSweep.induct)
  case (1 i txs w gl)
  note eq = utxoSweep.simps [of i txs w gl]
  let ?w' = "walletPut (ToID (txs ! i)) (ToID (txs ! i))
              (walletPut (KeyID (txs ! i)) (KeyID (txs ! i)) w)"
  have w': "length ?w' = 0 \<Longrightarrow> i = 0" by simp
  show ?case
  proof (cases "i < length txs")
    case False
    with "1.prems" eq show ?thesis by simp
  next
    case inb: True
    then have dr: "drop i txs = txs ! i # drop (Suc i) txs"
      by (rule Cons_nth_drop_Suc [symmetric])
    show ?thesis
    proof (cases "length w = 0")
      case True
      with "1.prems"(2) have i0: "i = 0" by simp
      from True inb "1.prems"(1) eq have
        "utxoSweep i (tl txs) ?w' (gl @ [txs ! i]) = (txs', w', gl')" by simp
      from "1.IH"(1) [OF inb True this w'] obtain ys where
        ys: "gl' = (gl @ [txs ! i]) @ ys" "subseq ys (drop i (tl txs))" by auto
      from ys(2) i0 have "subseq ys (drop (Suc i) txs)" by (simp add: drop_Suc)
      then have "subseq (txs ! i # ys) (drop i txs)" unfolding dr by simp
      with ys(1) show ?thesis by auto
    next
      case nonempty: False
      show ?thesis
      proof (cases "walletGet w (KeyID (txs ! i)) \<noteq> 0 \<or> walletGet w (ToID (txs ! i)) \<noteq> 0")
        case True
        with nonempty inb "1.prems"(1) eq have
          "utxoSweep i (take i txs @ drop (Suc i) txs) ?w' (gl @ [txs ! i]) = (txs', w', gl')"
          by simp
        from "1.IH"(2) [OF inb nonempty True this w'] obtain ys where
          ys: "gl' = (gl @ [txs ! i]) @ ys"
            "subseq ys (drop i (take i txs @ drop (Suc i) txs))"
          by auto
        from inb have "drop i (take i txs @ drop (Suc i) txs) = drop (Suc i) txs" by simp
        with ys(2) have "subseq (txs ! i # ys) (drop i txs)" unfolding dr by simp
        with ys(1) show ?thesis by auto
      next
        case False
        with nonempty inb "1.prems"(1) eq have "utxoSweep (Suc i) txs w gl = (txs', w', gl')"
          by simp
        from "1.IH"(3) [OF inb nonempty False this] nonempty obtain ys where
          ys: "gl' = gl @ ys" "subseq ys (drop (Suc i) txs)" by auto
        from ys(2) have "subseq ys (drop i txs)" unfolding dr by (rule list_emb_Cons)
        with ys(1) show ?thesis by auto
      qed
    qed
  qed
qed

text \<open>
  C8 fails on the code for the UTXO grouper. When a sweep has taken something and
  transactions are left, \<^verbatim>\<open>groupUtxoTxs\<close> calls itself with the same wallet and goes on
  appending to the same group list, so a transaction that joins the group in a later sweep
  stands behind those of the earlier sweeps, wherever it stood in the block. With the
  transfers 1 to 2, 3 to 4 and 4 to 1 the first sweep takes the first and the third (the
  second shares no account with the group yet), and the second sweep takes the second, which
  now shares the account 4: the one group lists the transfer 4 to 1 before the transfer
  3 to 4, against their order in the block.
\<close>

theorem C8_utxo_group_out_of_order:
  "map_option TxsGroupMap
     (groupUtxoTxs initGroupState [utxoTx ''ab'' 1 2, utxoTx ''cd'' 3 4, utxoTx ''da'' 4 1] []) =
     Some [(1, [utxoTx ''ab'' 1 2, utxoTx ''da'' 4 1, utxoTx ''cd'' 3 4])] \<and>
   \<not> subseq [utxoTx ''ab'' 1 2, utxoTx ''da'' 4 1, utxoTx ''cd'' 3 4]
        [utxoTx ''ab'' 1 2, utxoTx ''cd'' 3 4, utxoTx ''da'' 4 1]"
  by (simp add: grouper_eval utxoTx_def)

text \<open>
  The executor plays a group in list order. For the generated block of these three transfers,
  with every call succeeding, \<^verbatim>\<open>ProcessTxs\<close> plays the transfer 4 to 1 before the transfer
  3 to 4, and the accepted transactions, which become the transactions of the block, are in
  that order.
\<close>

lemma utxo_block_played_out_of_order:
  "map_option (\<lambda>(err, st). (err, [Hash t. EvPlay t \<leftarrow> trace st], processedTx st))
     (ProcessTxs (envOK [utxoTx ''ab'' 1 2, utxoTx ''cd'' 3 4, utxoTx ''da'' 4 1])
        (initState (blockOf True UtxoTxType
           [utxoTx ''ab'' 1 2, utxoTx ''cd'' 3 4, utxoTx ''da'' 4 1]))) =
     Some (None, [''ab'', ''da'', ''cd''], [''ab'', ''da'', ''cd''])"
  by (simp add: play_eval envOK_def blockOf_def utxoTx_def lookupTx_def playOK_def)

section \<open>The serial executor: limit stop\<close>




section \<open>What ProcessTxs leaves alone\<close>

lemma sends_append: "sends (xs @ ys) = sends xs @ sends ys"
  by (induction xs rule: sends.induct) simp_all

lemma sends_inner: "\<not> list_ex outerEvent new \<Longrightarrow> sends new = []"
  by (induction new rule: sends.induct) simp_all

lemma frame_refl [simp]: "frame st st"
  by (simp add: frame_def)

lemma frame_trans: "frame st st1 \<Longrightarrow> frame st1 st2 \<Longrightarrow> frame st st2"
  by (auto simp: frame_def)

lemma frame_emit: "\<not> outerEvent e \<Longrightarrow> frame st (emit e st)"
  by (simp add: frame_def emit_def)

lemma frame_emit': "\<not> outerEvent e \<Longrightarrow> frame st st1 \<Longrightarrow> frame st (emit e st1)"
  by (auto simp: frame_def emit_def)

lemma frame_sends: "frame st st' \<Longrightarrow> sends (trace st') = sends (trace st)"
  by (auto simp: frame_def sends_append sends_inner)

lemma frame_acceptTx: "frame st (acceptTx t r st)"
  by (simp add: acceptTx_def frame_def emit_def Let_def)

lemma frame_rejectTx: "frame st (snd (rejectTx env curTx t r err st))"
  by (simp add: rejectTx_def frame_def emit_def Let_def split: option.splits)

lemma frame_execTx: "frame st (snd (execTx env curTx t st))"
proof -
  let ?st1 = "emit (EvPlay t) (emit (EvWithOption t) (emit (EvSavepoint t) st))"
  have 1: "frame st ?st1" by (simp add: frame_def emit_def)
  have 2: "frame st (emit (EvRollbackSavepoint t) ?st1)" by (simp add: frame_def emit_def)
  have 3: "frame st (snd (rejectTx env curTx t r err (emit (EvRollbackSavepoint t) ?st1)))" for r err
    using 2 frame_rejectTx by (rule frame_trans)
  have 4: "frame st (acceptTx t r ?st1)" for r
    using 1 frame_acceptTx by (rule frame_trans)
  show ?thesis
    using 3 4 by (simp add: execTx_def Let_def frame_emit frame_emit' split: option.splits)
qed

lemma frame_serialLoop: "frame st (snd (serialLoop env curTx txs genBErr st))"
proof (induction txs arbitrary: curTx genBErr st)
  case Nil
  show ?case by simp
next
  case (Cons t txs)
  obtain fl st1 where ex: "execTx env curTx t st = (fl, st1)" by (cases "execTx env curTx t st")
  with frame_execTx [of st env curTx t] have f1: "frame st st1" by simp
  show ?case
  proof (cases fl)
    case (Return e)
    with ex f1 show ?thesis by simp
  next
    case Break
    with ex f1 show ?thesis by simp
  next
    case (Continue err)
    with ex have "snd (serialLoop env curTx (t # txs) genBErr st) =
        snd (serialLoop env (Suc curTx) txs (Some err) st1)" by simp
    with f1 Cons.IH [of st1 "Suc curTx" "Some err"] show ?thesis by (simp add: frame_trans)
  next
    case Next
    with ex have "snd (serialLoop env curTx (t # txs) genBErr st) =
        snd (serialLoop env (Suc curTx) txs genBErr st1)" by simp
    with f1 Cons.IH [of st1 "Suc curTx" genBErr] show ?thesis by (simp add: frame_trans)
  qed
qed

lemma frame_serialExecuteTxs: "frame st (snd (serialExecuteTxs env txs genBErr st))"
  by (simp add: serialExecuteTxs_def frame_serialLoop)

lemma frame_unmarshallAll: "frame st (snd (unmarshallAll env raws acc st))"
proof (induction raws arbitrary: acc st)
  case Nil
  show ?case by simp
next
  case (Cons r raws)
  show ?case
  proof (cases "UnmarshallTransaction env r")
    case (Parsed t)
    with Cons.IH show ?thesis by simp
  next
    case (ParseError h err)
    show ?thesis
    proof (cases h)
      case None
      with ParseError Cons.IH show ?thesis by simp
    next
      case (Some hash)
      let ?st1 = "emit (EvMarkTransactionBad hash (Error (SentinelText env) err)) st"
      have "frame st ?st1" by (simp add: frame_emit)
      moreover have "frame ?st1 (snd (unmarshallAll env raws acc ?st1))" by (rule Cons.IH)
      ultimately have "frame st (snd (unmarshallAll env raws acc ?st1))" by (rule frame_trans)
      with ParseError Some show ?thesis by simp
    qed
  qed
qed

lemma frame_classify: "frame st (snd (classify env ks txsMap st))"
proof (induction ks arbitrary: txsMap st)
  case Nil
  show ?case by simp
next
  case (Cons k ks)
  obtain txs st1 where u: "unmarshallAll env (ClassifyTxsMap (blk st) k) [] st = (txs, st1)"
    by (cases "unmarshallAll env (ClassifyTxsMap (blk st) k) [] st")
  with frame_unmarshallAll [of st env "ClassifyTxsMap (blk st) k" "[]"] have "frame st st1" by simp
  moreover have "frame st1 (snd (classify env ks (txsMap(k := txs)) st1))" by (rule Cons.IH)
  ultimately have "frame st (snd (classify env ks (txsMap(k := txs)) st1))" by (rule frame_trans)
  with u show ?case by simp
qed

lemma frame_parseFirstBlock: "frame st (snd (snd (parseFirstBlock env txs acc st)))"
  by (induction txs arbitrary: acc st)
     (auto simp: frame_emit split: Unmarshalled.splits option.splits)

lemma frame_runGroups: "frame st (runGroups env groups genBErr st)"
proof (induction groups arbitrary: st)
  case Nil
  show ?case by simp
next
  case (Cons g groups)
  obtain k txs where g: "g = (k, txs)" by (cases g)
  from frame_serialExecuteTxs [of st env txs genBErr]
    Cons.IH [of "snd (serialExecuteTxs env txs genBErr st)"]
  show ?case unfolding g by (simp add: frame_trans)
qed

lemma frame_phaseFirstBlock: "frame st (snd (phaseFirstBlock env genBErr st))"
proof -
  obtain e txs st1 where p: "parseFirstBlock env (Transactions (blk st)) [] st = (e, txs, st1)"
    by (cases "parseFirstBlock env (Transactions (blk st)) [] st")
  with frame_parseFirstBlock [of st env "Transactions (blk st)" "[]"] have f: "frame st st1" by simp
  from f frame_serialExecuteTxs [of st1 env txs genBErr]
  have "frame st (snd (serialExecuteTxs env txs genBErr st1))" by (rule frame_trans)
  with p f show ?thesis by (simp add: phaseFirstBlock_def split: option.splits)
qed

lemma frame_serialPhases: "frame st (snd (serialPhases env txsMap genBErr st))"
proof -
  obtain e1 st1 where p1: "phaseStopNetwork env txsMap genBErr st = (e1, st1)"
    by (cases "phaseStopNetwork env txsMap genBErr st")
  then have f1: "frame st st1"
    using frame_serialExecuteTxs [of st env "txsMap StopNetworkTxType" genBErr]
    by (auto simp: phaseStopNetwork_def split: if_splits)
  obtain e2 st2 where p2: "phaseFirstBlock env genBErr st1 = (e2, st2)"
    by (cases "phaseFirstBlock env genBErr st1")
  with frame_phaseFirstBlock [of st1 env genBErr] f1 have f2: "frame st st2"
    by (auto intro: frame_trans)
  have "frame st2 (snd (phaseDelay env txsMap genBErr st2))"
    using frame_serialExecuteTxs [of st2 env "txsMap DelayTxType" genBErr]
    by (auto simp: phaseDelay_def split: if_splits)
  with f2 have f3: "frame st (snd (phaseDelay env txsMap genBErr st2))" by (rule frame_trans)
  from p1 p2 f1 f2 f3 show ?thesis
    by (simp add: serialPhases_def split: option.splits)
qed

lemma frame_utxoGroup: "frame (st\<lparr>utxoGroup := g\<rparr>) st' \<Longrightarrow> frame st (st'\<lparr>utxoGroup := g'\<rparr>)"
  by (simp add: frame_def)

lemma frame_transferSelfGroup:
  "frame (st\<lparr>transferSelfGroup := g\<rparr>) st' \<Longrightarrow> frame st (st'\<lparr>transferSelfGroup := g'\<rparr>)"
  by (simp add: frame_def)

lemma frame_phaseTransferSelf:
  "phaseTransferSelf env txsMap genBErr st = Some st' \<Longrightarrow> frame st st'"
  by (auto simp: phaseTransferSelf_def split: if_splits option.splits
      intro!: frame_transferSelfGroup frame_runGroups)

lemma frame_phaseUtxo:
  "phaseUtxo env txsMap genBErr st = Some st' \<Longrightarrow> frame st st'"
  by (auto simp: phaseUtxo_def Let_def split: if_splits option.splits
      intro!: frame_utxoGroup frame_runGroups)

lemma frame_processBody:
  assumes "processBody env txsMap genBErr st = Some (err, st')"
  shows "frame st st'"
proof (cases "\<not> GenBlock (blk st) \<and> \<not> IsGenesis (blk st) \<and> BlockSyncMethodSQLDML env")
  case True
  with assms show ?thesis
    by (auto simp: processBody_def frame_emit split: if_splits option.splits)
next
  case False
  let ?st0 = "emit (EvGetTxOutputs (map KeyID (Transactions (blk st)))) st"
  have f0: "frame st ?st0" by (simp add: frame_emit)
  show ?thesis
  proof (cases "GetTxOutputs env (map KeyID (Transactions (blk st)))")
    case (Some e)
    with False assms f0 show ?thesis by (auto simp: processBody_def Let_def)
  next
    case None
    obtain e1 st1 where sp: "serialPhases env txsMap genBErr ?st0 = (e1, st1)"
      by (cases "serialPhases env txsMap genBErr ?st0")
    with frame_serialPhases [of ?st0 env txsMap genBErr] f0 have f1: "frame st st1"
      by (auto intro: frame_trans)
    show ?thesis
    proof (cases e1)
      case (Some e)
      with False None sp assms f1 show ?thesis by (auto simp: processBody_def Let_def)
    next
      case n1: None
      with False None sp assms obtain st2 where
        p2: "phaseTransferSelf env txsMap genBErr st1 = Some st2" and
        p3: "phaseUtxo env txsMap genBErr st2 = Some st'"
        by (auto simp: processBody_def Let_def split: option.splits)
      from f1 frame_phaseTransferSelf [OF p2] frame_phaseUtxo [OF p3] show ?thesis
        by (blast intro: frame_trans)
    qed
  qed
qed

lemma frame_deferred: "frame st (snd (deferred env genBErr err st))"
  by (simp add: deferred_def Let_def frame_def emit_def split: option.splits)

lemma frame_ProcessTxs:
  assumes "ProcessTxs env st = Some (err, st')"
  shows "frame st st'"
proof -
  let ?st0 = "st\<lparr>afters := \<lparr>Rts = [], Txs = [], TxBinLogSql = []\<rparr>, processedTx := []\<rparr>"
  obtain txsMap st1 where c: "classify env allTxTypes (\<lambda>k. []) ?st0 = (txsMap, st1)"
    by (cases "classify env allTxTypes (\<lambda>k. []) ?st0")
  with frame_classify [of ?st0 env allTxTypes "\<lambda>k. []"] have "frame ?st0 st1" by simp
  then have f1: "frame st st1" by (simp add: frame_def)
  from assms c obtain e2 st2 where
    b: "processBody env txsMap None st1 = Some (e2, st2)" and
    d: "deferred env None e2 st2 = (err, st')"
    by (auto simp: ProcessTxs_def Let_def split: option.splits)
  from frame_deferred [of st2 env None e2] d have "frame st2 st'" by simp
  with f1 frame_processBody [OF b] show ?thesis by (blast intro: frame_trans)
qed

lemma trace_sendAll: "trace (sendAll qs st) = trace st @ map EvSend qs"
  by (induction qs arbitrary: st) (simp_all add: emit_def)

lemma blk_sendAll: "blk (sendAll qs st) = blk st"
  by (induction qs arbitrary: st) (simp_all add: emit_def)

lemma sends_map_EvSend: "sends (map EvSend qs) = qs"
  by (induction qs) simp_all

lemma frame_banLoop_sends:
  "sends (trace (snd (banLoop env msg txs banK st))) = sends (trace st)"
  by (induction txs arbitrary: banK st)
     (simp_all add: emit_def sends_append split: option.splits)

lemma banLoop_append:
  "banLoop env msg (pre @ rest) banK st =
     (case banLoop env msg pre banK st of
        (Some e, st') \<Rightarrow> (Some e, st')
      | (None, st') \<Rightarrow> banLoop env msg rest (bannedAfter pre banK) st')"
  by (induction pre arbitrary: banK st) (auto split: option.splits prod.splits)

lemma set_bannedAfter:
  "set (bannedAfter pre banK) = set banK \<union> {KeyID t | t. t \<in> set pre \<and> IsSmartContract t}"
  by (induction pre arbitrary: banK) auto

text \<open>\<^verbatim>\<open>ProcessTxs\<close> and \<^verbatim>\<open>PlaySafe\<close> return.\<close>

lemma processBody_returns: "\<exists>r. processBody env txsMap genBErr st = Some r"
proof -
  have ts: "\<exists>st'. phaseTransferSelf env txsMap genBErr s = Some st'" for s
    using groupTransferSelfTxs_returns [of "[]" "transferSelfGroup s" "txsMap TransferSelfTxType"]
    by (auto simp: phaseTransferSelf_def)
  have ux: "\<exists>st'. phaseUtxo env txsMap genBErr s = Some st'" for s
    using groupUtxoTxs_returns [of "[]" "utxoGroup s" "txsMap UtxoTxType"]
    by (auto simp: phaseUtxo_def Let_def)
  show ?thesis
  proof (cases "\<not> GenBlock (blk st) \<and> \<not> IsGenesis (blk st) \<and> BlockSyncMethodSQLDML env")
    case True
    then show ?thesis by (simp add: processBody_def split: option.splits)
  next
    case False
    let ?st0 = "emit (EvGetTxOutputs (map KeyID (Transactions (blk st)))) st"
    obtain e1 st1 where sp: "serialPhases env txsMap genBErr ?st0 = (e1, st1)"
      by (cases "serialPhases env txsMap genBErr ?st0")
    from ts [of st1] obtain st2 where t2: "phaseTransferSelf env txsMap genBErr st1 = Some st2" by blast
    from ux [of st2] obtain st3 where t3: "phaseUtxo env txsMap genBErr st2 = Some st3" by blast
    from False sp t2 t3 show ?thesis
      by (simp add: processBody_def Let_def split: option.splits)
  qed
qed

lemma ProcessTxs_returns: "\<exists>err st'. ProcessTxs env st = Some (err, st')"
proof -
  let ?st0 = "st\<lparr>afters := \<lparr>Rts = [], Txs = [], TxBinLogSql = []\<rparr>, processedTx := []\<rparr>"
  obtain txsMap st1 where c: "classify env allTxTypes (\<lambda>k. []) ?st0 = (txsMap, st1)"
    by (cases "classify env allTxTypes (\<lambda>k. []) ?st0")
  from processBody_returns [of env txsMap None st1] obtain e2 st2 where
    "processBody env txsMap None st1 = Some (e2, st2)" by auto
  with c show ?thesis
    by (cases "deferred env None e2 st2") (simp add: ProcessTxs_def Let_def)
qed

lemma PlaySafe_returns: "\<exists>res st'. PlaySafe env st = Some (res, st')"
proof -
  from ProcessTxs_returns [of env "emit EvStartTransaction st"] obtain e st1 where
    "ProcessTxs env (emit EvStartTransaction st) = Some (e, st1)" by blast
  then show ?thesis
    by (auto simp: PlaySafe_def Let_def split: option.splits prod.splits)
qed

section \<open>PlaySafe: empty generation, notifications, the ban loop\<close>

text \<open>
  C6. In generation mode, when \<^verbatim>\<open>ProcessTxs\<close> returns nil and has accepted nothing,
  \<^verbatim>\<open>PlaySafe\<close> calls \<^verbatim>\<open>Commit\<close> as its last call and returns \<^verbatim>\<open>ErrEmptyBlock\<close>; the trace
  holds no \<^verbatim>\<open>Send\<close> that was not there before.
\<close>

theorem C6_empty_generation:
  assumes "StartTransaction env = None"
    and "ProcessTxs env (emit EvStartTransaction st) = Some (None, st1)"
    and "GenBlock (blk st)"
    and "TxFullData (blk st1) = []"
  shows "PlaySafe env st = Some (Some ErrEmptyBlock, emit EvCommit st1) \<and>
         sends (trace (emit EvCommit st1)) = sends (trace st)"
proof -
  from frame_ProcessTxs [OF assms(2)] have f: "frame (emit EvStartTransaction st) st1" .
  then have gen: "GenBlock (blk st1) = GenBlock (blk st)" by (simp add: frame_def emit_def)
  from frame_sends [OF f] have "sends (trace st1) = sends (trace st)"
    by (simp add: emit_def sends_append)
  then have "sends (trace (emit EvCommit st1)) = sends (trace st)"
    by (simp add: emit_def sends_append)
  moreover from assms gen have "PlaySafe env st = Some (Some ErrEmptyBlock, emit EvCommit st1)"
    by (simp add: PlaySafe_def)
  ultimately show ?thesis by simp
qed

text \<open>C6 at a generated block with no transactions.\<close>

theorem C6_empty_generation_witness:
  "map_option (\<lambda>(e, st). (e, trace st)) (PlaySafe (envOK []) (initState emptyBlock)) =
     Some (Some ErrEmptyBlock, [EvStartTransaction, EvGetTxOutputs [], EvAfterPlayTxs, EvCommit])"
  using C6_empty_generation [of "envOK []" "initState emptyBlock"
      "snd (the (ProcessTxs (envOK []) (emit EvStartTransaction (initState emptyBlock))))"]
  by (simp add: play_eval envOK_def lookupTx_def playOK_def emptyBlock_def)

lemma notification_gating_aux:
  assumes "PlaySafe env st = Some (res, st')"
  shows "(StartTransaction env \<noteq> None \<or>
          (\<exists>e st1. ProcessTxs env (emit EvStartTransaction st) = Some (Some e, st1)) \<or>
          InsertIntoBlockchain env \<noteq> None \<or> Commit env \<noteq> None
            \<longrightarrow> sends (trace st') = sends (trace st)) \<and>
         (sends (trace st') \<noteq> sends (trace st)
            \<longrightarrow> res = None \<and> Commit env = None \<and>
                (\<exists>pre. trace st' = pre @ EvCommit # map EvSend (Notifications (blk st')) \<and>
                       sends pre = sends (trace st)))"
proof (cases "StartTransaction env")
  case (Some e)
  with assms show ?thesis by (auto simp: PlaySafe_def emit_def sends_append)
next
  case None
  with assms obtain e1 st1 where p: "ProcessTxs env (emit EvStartTransaction st) = Some (e1, st1)"
    by (auto simp: PlaySafe_def Let_def split: option.splits)
  from frame_sends [OF frame_ProcessTxs [OF p]] have s1: "sends (trace st1) = sends (trace st)"
    by (simp add: emit_def sends_append)
  show ?thesis
  proof (cases e1)
    case (Some err)
    let ?st2 = "emit EvRollback st1"
    let ?ban = "banLoop env (Error (SentinelText env) err) (Transactions (blk st)) [] ?st2"
    have s2: "sends (trace ?st2) = sends (trace st)"
      using s1 by (simp add: emit_def sends_append)
    have s3: "sends (trace (snd ?ban)) = sends (trace st)"
      using s2 by (simp add: frame_banLoop_sends)
    from assms None p Some have "st' = ?st2 \<or> st' = snd ?ban"
      by (auto simp: PlaySafe_def Let_def split: option.splits if_splits prod.splits)
    with s2 s3 have "sends (trace st') = sends (trace st)" by auto
    then show ?thesis by simp
  next
    case n: None
    show ?thesis
    proof (cases "GenBlock (blk st1) \<and> length (TxFullData (blk st1)) = 0")
      case True
      with assms None p n have "st' = emit EvCommit st1"
        by (auto simp: PlaySafe_def Let_def)
      with s1 have "sends (trace st') = sends (trace st)" by (simp add: emit_def sends_append)
      then show ?thesis by simp
    next
      case False
      show ?thesis
      proof (cases "InsertIntoBlockchain env")
        case (Some e)
        with assms None p n False have "st' = emit EvRollback (emit EvInsertIntoBlockchain st1)"
          by (auto simp: PlaySafe_def Let_def)
        with s1 have "sends (trace st') = sends (trace st)" by (simp add: emit_def sends_append)
        then show ?thesis by simp
      next
        case ins: None
        let ?st2 = "emit EvCommit (emit EvInsertIntoBlockchain st1)"
        show ?thesis
        proof (cases "Commit env")
          case (Some e)
          with assms None p n False ins have "st' = ?st2" by (auto simp: PlaySafe_def Let_def)
          with s1 have "sends (trace st') = sends (trace st)" by (simp add: emit_def sends_append)
          then show ?thesis by simp
        next
          case com: None
          with assms None p n False ins have
            r: "res = None" and st': "st' = sendAll (Notifications (blk ?st2)) ?st2"
            by (auto simp: PlaySafe_def Let_def)
          from st' have b: "Notifications (blk st') = Notifications (blk ?st2)"
            by (simp add: blk_sendAll)
          from st' b have
            "trace st' = (trace st1 @ [EvInsertIntoBlockchain]) @ EvCommit # map EvSend (Notifications (blk st'))"
            by (simp add: trace_sendAll emit_def)
          moreover from s1 have "sends (trace st1 @ [EvInsertIntoBlockchain]) = sends (trace st)"
            by (simp add: sends_append)
          ultimately have
            ex: "\<exists>pre. trace st' = pre @ EvCommit # map EvSend (Notifications (blk st')) \<and>
                   sends pre = sends (trace st)" by blast
          have "\<not> (StartTransaction env \<noteq> None \<or>
                  (\<exists>e st1. ProcessTxs env (emit EvStartTransaction st) = Some (Some e, st1)) \<or>
                  InsertIntoBlockchain env \<noteq> None \<or> Commit env \<noteq> None)"
            using None p n ins com by simp
          with ex r com show ?thesis by simp
        qed
      qed
    qed
  qed
qed

text \<open>
  C9. \<^verbatim>\<open>PlaySafe\<close> returns, and: if the database transaction could not be started,
  \<^verbatim>\<open>ProcessTxs\<close> failed, \<^verbatim>\<open>InsertIntoBlockchain\<close> fails or \<^verbatim>\<open>Commit\<close> fails, no
  notification is sent; and if a notification is sent, \<^verbatim>\<open>PlaySafe\<close> returns nil,
  \<^verbatim>\<open>Commit\<close> succeeded, and the trace ends with the commit followed by the sends of the
  block's queues, with no send before the commit.
\<close>

theorem C9_notification_gating:
  "\<exists>res st'. PlaySafe env st = Some (res, st') \<and>
     (StartTransaction env \<noteq> None \<or>
      (\<exists>e st1. ProcessTxs env (emit EvStartTransaction st) = Some (Some e, st1)) \<or>
      InsertIntoBlockchain env \<noteq> None \<or> Commit env \<noteq> None
        \<longrightarrow> sends (trace st') = sends (trace st)) \<and>
     (sends (trace st') \<noteq> sends (trace st)
        \<longrightarrow> res = None \<and> Commit env = None \<and>
            (\<exists>pre. trace st' = pre @ EvCommit # map EvSend (Notifications (blk st')) \<and>
                   sends pre = sends (trace st)))"
proof -
  from PlaySafe_returns obtain res st' where "PlaySafe env st = Some (res, st')" by blast
  with notification_gating_aux [OF this] show ?thesis by blast
qed

text \<open>
  C9 at a block whose transaction queues a notification: when the commit fails nothing is
  sent, when it succeeds the queue is sent.
\<close>

theorem C9_notification_gating_witness:
  "map_option (\<lambda>(e, st). (e, sends (trace st)))
     (PlaySafe (envNotify\<lparr>Commit := Some (ErrorNew ''commit failed'')\<rparr>) stNotify) =
     Some (Some (ErrorNew ''commit failed''), []) \<and>
   map_option (\<lambda>(e, st). (e, sends (trace st))) (PlaySafe envNotify stNotify) =
     Some (None, [[''note for a'']])"
  using C9_notification_gating [of "envNotify\<lparr>Commit := Some (ErrorNew ''commit failed'')\<rparr>" stNotify]
    C9_notification_gating [of envNotify stNotify]
  by (simp add: play_eval envNotify_def stNotify_def notifying_def envOK_def lookupTx_def
      playOK_def scTx_def blockOf_def)

text \<open>
  C10. \<^verbatim>\<open>ProcessTxs\<close> has failed with \<open>err\<close> in generation mode with nothing accepted. The
  ban loop has gone through the transactions \<open>pre\<close> of the input without a marking error and
  reaches \<open>t\<close>, which it marks (\<open>t\<close> is no smart contract, or its sender is banned already);
  the marking fails with \<open>errMark\<close>. Then \<^verbatim>\<open>PlaySafe\<close> returns \<open>errMark\<close>, not \<open>err\<close>, and the
  last call made is the failed marking: for the transactions \<open>post\<close> nothing is called.
\<close>

theorem C10_marking_error_ends_ban_pass:
  assumes "StartTransaction env = None"
    and "ProcessTxs env (emit EvStartTransaction st) = Some (Some err, st1)"
    and "GenBlock (blk st)" and "TxFullData (blk st1) = []"
    and "Transactions (blk st) = pre @ t # post"
    and "banLoop env (Error (SentinelText env) err) pre [] (emit EvRollback st1) = (None, st2)"
    and "\<not> IsSmartContract t \<or> (\<exists>t' \<in> set pre. IsSmartContract t' \<and> KeyID t' = KeyID t)"
    and "MarkTransactionBad env (Hash t) (Error (SentinelText env) err) = Some errMark"
  shows "PlaySafe env st =
           Some (Some errMark, emit (EvMarkTransactionBad (Hash t) (Error (SentinelText env) err)) st2)"
proof -
  let ?msg = "Error (SentinelText env) err"
  from frame_ProcessTxs [OF assms(2)] have "frame (emit EvStartTransaction st) st1" .
  then have gen: "GenBlock (blk st1) = GenBlock (blk st)" by (simp add: frame_def emit_def)
  from assms(7) have "\<not> (KeyID t \<notin> set (bannedAfter pre []) \<and> IsSmartContract t)"
    by (auto simp: set_bannedAfter)
  with assms(8) have
    "banLoop env ?msg (t # post) (bannedAfter pre []) st2 =
       (Some errMark, emit (EvMarkTransactionBad (Hash t) ?msg) st2)" by auto
  with assms(6) have
    "banLoop env ?msg (pre @ t # post) [] (emit EvRollback st1) =
       (Some errMark, emit (EvMarkTransactionBad (Hash t) ?msg) st2)"
    by (simp add: banLoop_append)
  with assms gen show ?thesis by (simp add: PlaySafe_def Let_def emit_def)
qed

text \<open>
  C10 at the input \<open>a, b, c\<close>: the sender of \<open>a\<close> is banned, the marking of \<open>b\<close> fails, and
  \<open>c\<close> is neither banned nor marked.
\<close>

theorem C10_marking_error_ends_ban_pass_witness:
  "map_option (\<lambda>(e, st). (e, trace st)) (PlaySafe envMarkFails stMarkFails) =
     Some (Some (ErrorNew ''cannot mark''),
           [EvStartTransaction, EvGetTxOutputs [7, 8, 9], EvAfterPlayTxs, EvRollback,
            EvBadTxForBan 7, EvMarkTransactionBad ''b'' ''no outputs''])"
  using C10_marking_error_ends_ban_pass [of envMarkFails stMarkFails "ErrorNew ''no outputs''"
      "snd (the (ProcessTxs envMarkFails (emit EvStartTransaction stMarkFails)))"
      "[scTx ''a'' 7]" "delayTx ''b'' 8" "[scTx ''c'' 9]"
      "emit (EvBadTxForBan 7)
         (emit EvRollback (snd (the (ProcessTxs envMarkFails (emit EvStartTransaction stMarkFails)))))"
      "ErrorNew ''cannot mark''"]
  by (simp add: play_eval envMarkFails_def stMarkFails_def envOK_def lookupTx_def playOK_def
      scTx_def delayTx_def blockOf_def)

section \<open>Generation mode: a failing transaction\<close>

lemma serialLoop_accept:
  "Savepoint env t = None \<Longrightarrow> WithOption env t = None \<Longrightarrow> playErr (Play env t) = None \<Longrightarrow>
   serialLoop env curTx (t # txs) genBErr st =
     serialLoop env (Suc curTx) txs genBErr
       (acceptTx t (Play env t)
          (st\<lparr>trace := trace st @ [EvSavepoint t, EvWithOption t, EvPlay t]\<rparr>))"
  by (simp add: execTx_def emit_def Let_def)

lemma serialLoop_reject_generation:
  assumes "Savepoint env t = None" and "WithOption env t = None"
    and "playErr (Play env t) = Some err" and "err \<noteq> ErrNetworkStopping"
    and "RollbackSavepoint env t = None" and "GenBlock (blk st)" and "Cause err \<noteq> ErrLimitStop"
    and "SysparSysUpdate env = None \<or> \<not> playSysUpdate (Play env t)"
  shows "serialLoop env curTx (t # txs) genBErr st =
     serialLoop env (Suc curTx) txs (Some (markedError env True err))
       (st\<lparr>trace := trace st @
          [EvSavepoint t, EvWithOption t, EvPlay t, EvRollbackSavepoint t] @
          (if IsSmartContract t then [EvBadTxForBan (KeyID t)] else []) @
          [EvMarkTransactionBad (Hash t) (Error (SentinelText env) (markedError env True err))] @
          (if playSysUpdate (Play env t) then [EvSysparSysUpdate] else [])\<rparr>)"
  using assms
  by (auto simp: execTx_def rejectTx_def emit_def Let_def markedError_def)

lemma acceptTx_proj [simp]:
  "trace (acceptTx t r st) = trace st @ [EvUpdateTxInputs t, EvInsertTxOutputs t]"
  "processedTx (acceptTx t r st) = processedTx st @ [FullData t]"
  "Txs (afters (acceptTx t r st)) =
     Txs (afters st) @ [\<lparr>UsedTx = Hash t, LtsTxData = FullData t, LtsAddress = KeyID t\<rparr>]"
  "GenBlock (blk (acceptTx t r st)) = GenBlock (blk st)"
  "IsGenesis (blk (acceptTx t r st)) = IsGenesis (blk st)"
  "utxoGroup (acceptTx t r st) = utxoGroup st"
  "transferSelfGroup (acceptTx t r st) = transferSelfGroup st"
  by (simp_all add: acceptTx_def emit_def Let_def)

lemma serialLoop_drops_genBErr:
  "serialLoop env curTx txs genBErr st = serialLoop env curTx txs genBErr' st"
  by (induction txs arbitrary: curTx genBErr genBErr' st)
     (auto split: prod.splits Flow.splits)

text \<open>
  C2. A block in generation mode (not the genesis block) whose classification holds the three
  smart-contract transactions \<open>tx_ok\<close>, \<open>tx_bad\<close>, \<open>tx_ok2\<close> and nothing else. Every call of
  the environment succeeds but the play of \<open>tx_bad\<close>, which fails with an error that is
  neither \<^verbatim>\<open>ErrNetworkStopping\<close> nor caused by \<^verbatim>\<open>ErrLimitStop\<close>. Then \<^verbatim>\<open>PlaySafe\<close> returns
  nil, it has committed and not rolled back, the block's \<^verbatim>\<open>TxFullData\<close> (the accepted list)
  is the data of \<open>tx_ok\<close> and \<open>tx_ok2\<close>, \<open>tx_bad\<close> has been marked bad and its sender
  registered for banning, and \<^verbatim>\<open>AfterTxs.Txs\<close> holds two entries, for \<open>tx_ok\<close> and \<open>tx_ok2\<close>.
\<close>

theorem C2_generation_keeps_going:
  assumes "GenBlock b" and "\<not> IsGenesis b"
    and "ClassifyTxsMap b = (\<lambda>k. if k = SmartContractTxType then [r1, r2, r3] else [])"
    and "UnmarshallTransaction env r1 = Parsed tx_ok"
    and "UnmarshallTransaction env r2 = Parsed tx_bad"
    and "UnmarshallTransaction env r3 = Parsed tx_ok2"
    and "IsSmartContract tx_bad"
    and "StartTransaction env = None"
    and "GetTxOutputs env (map KeyID (Transactions b)) = None"
    and "Savepoint env tx_ok = None" and "WithOption env tx_ok = None"
    and "Savepoint env tx_bad = None" and "WithOption env tx_bad = None"
    and "Savepoint env tx_ok2 = None" and "WithOption env tx_ok2 = None"
    and "playErr (Play env tx_ok) = None" and "playErr (Play env tx_ok2) = None"
    and "playErr (Play env tx_bad) = Some err"
    and "err \<noteq> ErrNetworkStopping" and "Cause err \<noteq> ErrLimitStop"
    and "RollbackSavepoint env tx_bad = None"
    and "SysparSysUpdate env = None \<or> \<not> playSysUpdate (Play env tx_bad)"
    and "mset (Schedule env [(0, [tx_ok, tx_bad, tx_ok2])]) = mset [(0, [tx_ok, tx_bad, tx_ok2])]"
    and "AfterPlayTxs env = None" and "InsertIntoBlockchain env = None" and "Commit env = None"
  shows "\<exists>st'. PlaySafe env (initState b) = Some (None, st') \<and>
           EvCommit \<in> set (trace st') \<and> EvRollback \<notin> set (trace st') \<and>
           TxFullData (blk st') = [FullData tx_ok, FullData tx_ok2] \<and>
           EvMarkTransactionBad (Hash tx_bad) (Error (SentinelText env) (markedError env True err))
             \<in> set (trace st') \<and>
           EvBadTxForBan (KeyID tx_bad) \<in> set (trace st') \<and>
           map_option (map UsedTx \<circ> Txs) (AfterTxs (blk st')) = Some [Hash tx_ok, Hash tx_ok2]"
proof -
  let ?txs = "[tx_ok, tx_bad, tx_ok2]"
  let ?e = "markedError env True err"
  from assms(23) have sched: "Schedule env [(0, ?txs)] = [(0, ?txs)]"
    by (metis mset_single_iff_right mset.simps(1) mset.simps(2) add_mset_eq_single mset_zero_iff
        mset_eq_setD)
  define st0 where
    "st0 = (emit EvStartTransaction (initState b))
             \<lparr>afters := \<lparr>Rts = [], Txs = [], TxBinLogSql = []\<rparr>, processedTx := []\<rparr>"
  have st0: "blk st0 = b" "trace st0 = [EvStartTransaction]" "processedTx st0 = []"
    "Txs (afters st0) = []" "utxoGroup st0 = initGroupState"
    by (simp_all add: st0_def initState_def emit_def)
  define txsMap where
    "txsMap = (\<lambda>k. if k = SmartContractTxType then ?txs else [])"
  have cl: "classify env allTxTypes (\<lambda>k. []) st0 = (txsMap, st0)"
    using assms(3-6) st0(1)
    by (simp add: allTxTypes_def txsMap_def fun_eq_iff)
  define st1 where "st1 = emit (EvGetTxOutputs (map KeyID (Transactions b))) st0"
  have st1: "blk st1 = b" "trace st1 = [EvStartTransaction, EvGetTxOutputs (map KeyID (Transactions b))]"
    "processedTx st1 = []" "Txs (afters st1) = []" "utxoGroup st1 = initGroupState"
    by (simp_all add: st1_def st0 emit_def)
  have sp: "serialPhases env txsMap None st1 = (None, st1)"
    using assms(2) st1(1)
    by (simp add: serialPhases_def phaseStopNetwork_def phaseFirstBlock_def phaseDelay_def
        txsMap_def)
  have ts: "phaseTransferSelf env txsMap None st1 = Some st1"
    by (simp add: phaseTransferSelf_def txsMap_def)
  define st2 where
    "st2 = st1\<lparr>utxoGroup := initGroupState\<lparr>TxsGroupMap := [(0, ?txs)]\<rparr>\<rparr>"
  have st2: "blk st2 = b" "trace st2 = trace st1" "processedTx st2 = []" "Txs (afters st2) = []"
    by (simp_all add: st2_def st1)
  obtain st3 where loop: "serialLoop env 0 ?txs None st2 = (None, st3)"
    and st3: "GenBlock (blk st3)" "\<not> IsGenesis (blk st3)"
      "processedTx st3 = [FullData tx_ok, FullData tx_ok2]"
      "map UsedTx (Txs (afters st3)) = [Hash tx_ok, Hash tx_ok2]"
      "EvMarkTransactionBad (Hash tx_bad) (Error (SentinelText env) ?e) \<in> set (trace st3)"
      "EvBadTxForBan (KeyID tx_bad) \<in> set (trace st3)"
      "EvRollback \<notin> set (trace st3)"
  proof -
    let ?a = "acceptTx tx_ok (Play env tx_ok)
                (st2\<lparr>trace := trace st2 @ [EvSavepoint tx_ok, EvWithOption tx_ok, EvPlay tx_ok]\<rparr>)"
    let ?b = "?a\<lparr>trace := trace ?a @
          [EvSavepoint tx_bad, EvWithOption tx_bad, EvPlay tx_bad, EvRollbackSavepoint tx_bad] @
          (if IsSmartContract tx_bad then [EvBadTxForBan (KeyID tx_bad)] else []) @
          [EvMarkTransactionBad (Hash tx_bad) (Error (SentinelText env) ?e)] @
          (if playSysUpdate (Play env tx_bad) then [EvSysparSysUpdate] else [])\<rparr>"
    let ?c = "acceptTx tx_ok2 (Play env tx_ok2)
                (?b\<lparr>trace := trace ?b @ [EvSavepoint tx_ok2, EvWithOption tx_ok2, EvPlay tx_ok2]\<rparr>)"
    have ga: "GenBlock (blk ?a)" using assms(1) st2(1) by simp
    have "serialLoop env 0 ?txs None st2 = serialLoop env 1 [tx_bad, tx_ok2] None ?a"
      using assms(10,11,16) by (simp add: serialLoop_accept del: serialLoop.simps(2))
    also have "\<dots> = serialLoop env 2 [tx_ok2] (Some ?e) ?b"
      using serialLoop_reject_generation [OF assms(12,13,18,19,21) ga assms(20,22), of 1 "[tx_ok2]" None]
      by (simp add: numeral_2_eq_2)
    also have "\<dots> = (None, ?c)"
      using assms(14,15,17) by (simp add: serialLoop_accept del: serialLoop.simps(2))
    finally have 1: "serialLoop env 0 ?txs None st2 = (None, ?c)" .
    have 2: "GenBlock (blk ?c)" "\<not> IsGenesis (blk ?c)"
      using assms(1,2) st2(1) by simp_all
    have 3: "processedTx ?c = [FullData tx_ok, FullData tx_ok2]"
      by (simp add: st2)
    have 4: "map UsedTx (Txs (afters ?c)) = [Hash tx_ok, Hash tx_ok2]"
      by (simp add: st2)
    have 5: "EvMarkTransactionBad (Hash tx_bad) (Error (SentinelText env) ?e) \<in> set (trace ?c)"
      by simp
    have 6: "EvBadTxForBan (KeyID tx_bad) \<in> set (trace ?c)"
      using assms(7) by simp
    have 7: "EvRollback \<notin> set (trace ?c)"
      by (simp add: st2 st1)
    from 1 2 3 4 5 6 7 show ?thesis by (rule that)
  qed
  define st4 where "st4 = st3\<lparr>utxoGroup := initGroupState\<rparr>"
  have ux: "phaseUtxo env txsMap None st1 = Some st4"
    using sched loop st1(5)
    by (simp add: phaseUtxo_def txsMap_def groupUtxoTxs.simps Let_def serialExecuteTxs_def
        st2_def st4_def initGroupState_def del: serialLoop.simps(2))
  have body: "processBody env txsMap None st0 = Some (None, st4)"
    using assms(1,9) st0(1) sp ts ux
    by (simp add: processBody_def Let_def st1_def [symmetric])
  define st5 where
    "st5 = emit EvAfterPlayTxs
             (st4\<lparr>blk := (blk st4)\<lparr>AfterTxs := Some (afters st4),
                                     TxFullData := processedTx st4\<rparr>\<rparr>)"
  have dfr: "deferred env None None st4 = (None, st5)"
    using assms(24) st3(1)
    by (simp add: deferred_def Let_def st5_def st4_def emit_def)
  have pt: "ProcessTxs env (emit EvStartTransaction (initState b)) = Some (None, st5)"
    using cl body dfr by (simp add: ProcessTxs_def Let_def st0_def)
  have st5: "GenBlock (blk st5)" "TxFullData (blk st5) = [FullData tx_ok, FullData tx_ok2]"
    "AfterTxs (blk st5) = Some (afters st3)" "trace st5 = trace st3 @ [EvAfterPlayTxs]"
    using st3 by (simp_all add: st5_def st4_def emit_def)
  define st6 where
    "st6 = sendAll (Notifications (blk st5)) (emit EvCommit (emit EvInsertIntoBlockchain st5))"
  have ps: "PlaySafe env (initState b) = Some (None, st6)"
    using assms(8,25,26) pt st5(1,2)
    by (simp add: PlaySafe_def Let_def st6_def emit_def)
  have tr6: "trace st6 = trace st3 @ [EvAfterPlayTxs, EvInsertIntoBlockchain, EvCommit]
               @ map EvSend (Notifications (blk st5))"
    by (simp add: st6_def trace_sendAll emit_def st5(4))
  have blk6: "blk st6 = blk st5" by (simp add: st6_def blk_sendAll emit_def)
  have "EvCommit \<in> set (trace st6)" by (simp add: tr6)
  moreover have "EvRollback \<notin> set (trace st6)" using st3(7) by (auto simp: tr6)
  moreover have "TxFullData (blk st6) = [FullData tx_ok, FullData tx_ok2]"
    by (simp add: blk6 st5)
  moreover have "EvMarkTransactionBad (Hash tx_bad) (Error (SentinelText env) ?e) \<in> set (trace st6)"
    using st3(5) by (simp add: tr6)
  moreover have "EvBadTxForBan (KeyID tx_bad) \<in> set (trace st6)"
    using st3(6) by (simp add: tr6)
  moreover have "map_option (map UsedTx \<circ> Txs) (AfterTxs (blk st6)) = Some [Hash tx_ok, Hash tx_ok2]"
    using st3(4) by (simp add: blk6 st5)
  ultimately show ?thesis using ps by blast
qed

text \<open>C2 at the block \<open>ok, bad, ok2\<close>.\<close>

theorem C2_generation_keeps_going_witness:
  "map_option
     (\<lambda>(e, st). (e, TxFullData (blk st), map_option (length \<circ> Txs) (AfterTxs (blk st)),
        EvCommit \<in> set (trace st), EvBadTxForBan 6 \<in> set (trace st),
        EvMarkTransactionBad ''bad'' ''boom'' \<in> set (trace st)))
     (PlaySafe envC2 (initState blockC2)) =
   Some (None, [''ok'', ''ok2''], Some 2, True, True, True)"
  using C2_generation_keeps_going [of blockC2 "''ok''" "''bad''" "''ok2''" envC2
      "scTx ''ok'' 5" "scTx ''bad'' 6" "scTx ''ok2'' 7" "ErrorNew ''boom''"]
  by (simp add: play_eval txsC2_def envC2_def blockC2_def envOK_def lookupTx_def playOK_def
      failing_def scTx_def blockOf_def)

text \<open>
  C1 fails on the code. In generation mode the executor does assign the error of a rejected
  transaction to \<^verbatim>\<open>genBErr\<close> and goes on with the next transaction, but \<^verbatim>\<open>genBErr\<close> is its
  own parameter, passed by value (\<open>serialLoop_drops_genBErr\<close>: the value plays no part in
  what the executor returns), so the variable of \<^verbatim>\<open>ProcessTxs\<close> that the deferred function
  reads stays nil. For a block of two delay transactions of which the first fails,
  \<^verbatim>\<open>ProcessTxs\<close> marks the first bad, accepts the second and returns nil, and \<^verbatim>\<open>PlaySafe\<close>
  commits and returns nil.
\<close>

theorem C1_generation_error_is_lost:
  "map_option (\<lambda>(e, st). (e, TxFullData (blk st), trace st))
     (ProcessTxs envC1 (emit EvStartTransaction stC1)) =
   Some (None, [''ok''],
     [EvStartTransaction, EvGetTxOutputs [5, 6],
      EvSavepoint (delayTx ''bad'' 5), EvWithOption (delayTx ''bad'' 5), EvPlay (delayTx ''bad'' 5),
      EvRollbackSavepoint (delayTx ''bad'' 5), EvMarkTransactionBad ''bad'' ''boom'',
      EvSavepoint (delayTx ''ok'' 6), EvWithOption (delayTx ''ok'' 6), EvPlay (delayTx ''ok'' 6),
      EvUpdateTxInputs (delayTx ''ok'' 6), EvInsertTxOutputs (delayTx ''ok'' 6),
      EvAfterPlayTxs]) \<and>
   map_option (\<lambda>(e, st). (e, last (trace st))) (PlaySafe envC1 stC1) = Some (None, EvCommit)"
  by (simp add: play_eval txsC1_def envC1_def stC1_def envOK_def lookupTx_def playOK_def
      failing_def delayTx_def blockOf_def)

text \<open>
  The ban loop, when no marking fails: every smart-contract sender of the input is registered
  exactly once, and the transactions marked bad are those at which no sender is registered.
\<close>

lemma bans_append: "bans (xs @ ys) = bans xs @ bans ys"
  by (induction xs rule: bans.induct) simp_all

lemma marks_append: "marks (xs @ ys) = marks xs @ marks ys"
  by (induction xs rule: marks.induct) simp_all

lemma banLoop_bans_and_marks:
  "\<forall>t \<in> set txs. MarkTransactionBad env (Hash t) msg = None \<Longrightarrow>
   bans (trace (snd (banLoop env msg txs banK st))) =
     bans (trace st) @ map KeyID (banTriggers txs banK) \<and>
   marks (trace (snd (banLoop env msg txs banK st))) =
     marks (trace st) @ map Hash (notTriggers txs banK)"
proof (induction txs arbitrary: banK st)
  case Nil
  show ?case by simp
next
  case (Cons t txs)
  from Cons.prems have rest: "\<forall>t \<in> set txs. MarkTransactionBad env (Hash t) msg = None"
    and m: "MarkTransactionBad env (Hash t) msg = None" by simp_all
  show ?case
  proof (cases "KeyID t \<notin> set banK \<and> IsSmartContract t")
    case True
    with Cons.IH [OF rest, of "KeyID t # banK" "emit (EvBadTxForBan (KeyID t)) st"]
    show ?thesis by (simp add: emit_def bans_append marks_append)
  next
    case False
    with m Cons.IH [OF rest, of banK "emit (EvMarkTransactionBad (Hash t) msg) st"]
    show ?thesis by (auto simp: emit_def bans_append marks_append)
  qed
qed

lemma banTriggers_senders:
  "distinct (map KeyID (banTriggers txs banK)) \<and>
   set (map KeyID (banTriggers txs banK)) =
     {KeyID t | t. t \<in> set txs \<and> IsSmartContract t} - set banK"
proof (induction txs arbitrary: banK)
  case Nil
  show ?case by simp
next
  case (Cons t txs)
  show ?case
  proof (cases "KeyID t \<notin> set banK \<and> IsSmartContract t")
    case True
    with Cons.IH [of "KeyID t # banK"] show ?thesis by auto
  next
    case False
    with Cons.IH [of banK] show ?thesis by auto
  qed
qed

text \<open>
  C4 fails on the code. In the ban loop of \<^verbatim>\<open>PlaySafe\<close> the branch that registers a sender
  for banning ends with \<^verbatim>\<open>continue\<close>, so the transaction that gets its sender banned is not
  marked bad (in general: \<open>banLoop_bans_and_marks\<close>). For a block of one smart-contract
  transaction whose \<^verbatim>\<open>ProcessTxs\<close> fails, the sender is banned and \<^verbatim>\<open>MarkTransactionBad\<close>
  is never called.
\<close>

theorem C4_banned_transaction_is_not_marked:
  "map_option (\<lambda>(e, st). (e, TxFullData (blk st), trace st)) (PlaySafe envC4 stC4) =
   Some (Some (ErrorNew ''no outputs''), [],
     [EvStartTransaction, EvGetTxOutputs [7], EvAfterPlayTxs, EvRollback, EvBadTxForBan 7])"
  by (simp add: play_eval envC4_def stC4_def envOK_def lookupTx_def playOK_def scTx_def
      blockOf_def)

section \<open>ErrNetworkStopping\<close>

lemma stopOK_Nil [simp]: "stopOK env [] res"
  by (simp add: stopOK_def)

lemma stopOK_append:
  "stopOK env new1 None \<Longrightarrow> stopOK env new2 res \<Longrightarrow> stopOK env (new1 @ new2) res"
  unfolding stopOK_def by (metis Un_iff append.assoc option.distinct(1) set_append)

lemma stopOK_no_play: "\<forall>t. EvPlay t \<notin> set new \<Longrightarrow> stopOK env new res"
  by (simp add: stopOK_def)

lemma rejectTx_trace:
  "\<exists>new. trace (snd (rejectTx env curTx t r err st)) = trace st @ new \<and> (\<forall>t'. EvPlay t' \<notin> set new)"
  by (simp add: rejectTx_def emit_def Let_def split: option.splits)

lemma execTx_stopOK:
  "\<exists>new. trace (snd (execTx env curTx t st)) = trace st @ new \<and>
         stopOK env new (flowErr (fst (execTx env curTx t st)))"
proof (cases "Savepoint env t")
  case (Some e)
  then show ?thesis by (simp add: execTx_def emit_def stopOK_def)
next
  case sp: None
  show ?thesis
  proof (cases "WithOption env t")
    case (Some e)
    with sp show ?thesis by (simp add: execTx_def emit_def stopOK_def)
  next
    case wo: None
    let ?st1 = "emit (EvPlay t) (emit (EvWithOption t) (emit (EvSavepoint t) st))"
    have t1: "trace ?st1 = trace st @ [EvSavepoint t, EvWithOption t, EvPlay t]"
      by (simp add: emit_def)
    show ?thesis
    proof (cases "playErr (Play env t)")
      case None
      with sp wo have "execTx env curTx t st = (Next, acceptTx t (Play env t) ?st1)"
        by (simp add: execTx_def Let_def)
      moreover have "trace (acceptTx t (Play env t) ?st1) =
          trace st @ [EvSavepoint t, EvWithOption t, EvPlay t, EvUpdateTxInputs t, EvInsertTxOutputs t]"
        by (simp add: emit_def)
      moreover have "stopOK env
          [EvSavepoint t, EvWithOption t, EvPlay t, EvUpdateTxInputs t, EvInsertTxOutputs t] None"
        using None by (simp add: stopOK_def)
      ultimately show ?thesis by simp
    next
      case (Some err)
      show ?thesis
      proof (cases "err = ErrNetworkStopping")
        case True
        with sp wo Some have "execTx env curTx t st =
            (Return (Some ErrNetworkStopping), emit EvPauseNodeActivity ?st1)"
          by (simp add: execTx_def Let_def)
        moreover have "trace (emit EvPauseNodeActivity ?st1) =
            trace st @ [EvSavepoint t, EvWithOption t, EvPlay t, EvPauseNodeActivity]"
          by (simp add: emit_def)
        moreover have "stopOK env [EvSavepoint t, EvWithOption t, EvPlay t, EvPauseNodeActivity]
            (Some ErrNetworkStopping)"
          by (simp add: stopOK_def)
        ultimately show ?thesis by simp
      next
        case False
        let ?st2 = "emit (EvRollbackSavepoint t) ?st1"
        have t2: "trace ?st2 = trace st @ [EvSavepoint t, EvWithOption t, EvPlay t, EvRollbackSavepoint t]"
          by (simp add: emit_def)
        show ?thesis
        proof (cases "RollbackSavepoint env t")
          case (Some errRoll)
          with sp wo \<open>playErr (Play env t) = Some err\<close> False have
            "execTx env curTx t st = (Return (Some (ErrorfBoth err errRoll)), ?st2)"
            by (simp add: execTx_def Let_def)
          moreover have "stopOK env [EvSavepoint t, EvWithOption t, EvPlay t, EvRollbackSavepoint t]
              (Some (ErrorfBoth err errRoll))"
            using \<open>playErr (Play env t) = Some err\<close> False by (simp add: stopOK_def)
          ultimately show ?thesis using t2 by simp
        next
          case None
          with sp wo \<open>playErr (Play env t) = Some err\<close> False have
            ex: "execTx env curTx t st = rejectTx env curTx t (Play env t) err ?st2"
            by (simp add: execTx_def Let_def)
          from rejectTx_trace [of env curTx t "Play env t" err ?st2] obtain new where
            new: "trace (snd (rejectTx env curTx t (Play env t) err ?st2)) = trace ?st2 @ new"
              "\<forall>t'. EvPlay t' \<notin> set new" by blast
          have "stopOK env ([EvSavepoint t, EvWithOption t, EvPlay t, EvRollbackSavepoint t] @ new)
              (flowErr (fst (rejectTx env curTx t (Play env t) err ?st2)))"
            using new(2) \<open>playErr (Play env t) = Some err\<close> False by (auto simp: stopOK_def)
          with ex new(1) t2 show ?thesis by simp
        qed
      qed
    qed
  qed
qed

lemma serialLoop_stopOK:
  "\<exists>new. trace (snd (serialLoop env curTx txs genBErr st)) = trace st @ new \<and>
         stopOK env new (fst (serialLoop env curTx txs genBErr st))"
proof (induction txs arbitrary: curTx genBErr st)
  case Nil
  show ?case by simp
next
  case (Cons t txs)
  obtain fl st1 where ex: "execTx env curTx t st = (fl, st1)" by (cases "execTx env curTx t st")
  with execTx_stopOK [of env curTx t st] obtain new1 where
    n1: "trace st1 = trace st @ new1" "stopOK env new1 (flowErr fl)" by auto
  show ?case
  proof (cases fl)
    case (Return e)
    with ex n1 show ?thesis by simp
  next
    case Break
    with ex n1 show ?thesis by simp
  next
    case (Continue err)
    from Cons.IH [of "Suc curTx" "Some err" st1] obtain new2 where
      n2: "trace (snd (serialLoop env (Suc curTx) txs (Some err) st1)) = trace st1 @ new2"
        "stopOK env new2 (fst (serialLoop env (Suc curTx) txs (Some err) st1))" by blast
    from n1(2) Continue n2(2) have
      "stopOK env (new1 @ new2) (fst (serialLoop env (Suc curTx) txs (Some err) st1))"
      by (simp add: stopOK_append)
    with ex Continue n1(1) n2(1) show ?thesis by simp
  next
    case Next
    from Cons.IH [of "Suc curTx" genBErr st1] obtain new2 where
      n2: "trace (snd (serialLoop env (Suc curTx) txs genBErr st1)) = trace st1 @ new2"
        "stopOK env new2 (fst (serialLoop env (Suc curTx) txs genBErr st1))" by blast
    from n1(2) Next n2(2) have
      "stopOK env (new1 @ new2) (fst (serialLoop env (Suc curTx) txs genBErr st1))"
      by (simp add: stopOK_append)
    with ex Next n1(1) n2(1) show ?thesis by simp
  qed
qed

lemma parseFirstBlock_trace:
  "\<exists>new. trace (snd (snd (parseFirstBlock env txs acc st))) = trace st @ new \<and>
         (\<forall>t'. EvPlay t' \<notin> set new)"
  by (induction txs arbitrary: acc st)
     (auto simp: emit_def split: Unmarshalled.splits option.splits)

lemma phaseFirstBlock_stopOK:
  "\<exists>new. trace (snd (phaseFirstBlock env genBErr st)) = trace st @ new \<and>
         stopOK env new (fst (phaseFirstBlock env genBErr st))"
proof (cases "IsGenesis (blk st)")
  case False
  then show ?thesis by (simp add: phaseFirstBlock_def)
next
  case True
  obtain e txs st1 where p: "parseFirstBlock env (Transactions (blk st)) [] st = (e, txs, st1)"
    by (cases "parseFirstBlock env (Transactions (blk st)) [] st")
  with parseFirstBlock_trace [of env "Transactions (blk st)" "[]" st] obtain new1 where
    n1: "trace st1 = trace st @ new1" "\<forall>t'. EvPlay t' \<notin> set new1" by auto
  show ?thesis
  proof (cases e)
    case (Some err)
    with True p n1 show ?thesis by (auto simp: phaseFirstBlock_def stopOK_no_play)
  next
    case None
    from serialLoop_stopOK [of env 0 txs genBErr st1] obtain new2 where
      n2: "trace (snd (serialLoop env 0 txs genBErr st1)) = trace st1 @ new2"
        "stopOK env new2 (fst (serialLoop env 0 txs genBErr st1))" by blast
    from n1(2) have "stopOK env new1 None" by (rule stopOK_no_play)
    from this n2(2) have "stopOK env (new1 @ new2) (fst (serialLoop env 0 txs genBErr st1))"
      by (rule stopOK_append)
    with True p None n1(1) n2(1) show ?thesis
      by (simp add: phaseFirstBlock_def serialExecuteTxs_def)
  qed
qed

lemma phaseStopNetwork_stopOK:
  "\<exists>new. trace (snd (phaseStopNetwork env txsMap genBErr st)) = trace st @ new \<and>
         stopOK env new (fst (phaseStopNetwork env txsMap genBErr st))"
  using serialLoop_stopOK [of env 0 "txsMap StopNetworkTxType" genBErr st]
  by (simp add: phaseStopNetwork_def serialExecuteTxs_def)

lemma phaseDelay_stopOK:
  "\<exists>new. trace (snd (phaseDelay env txsMap genBErr st)) = trace st @ new \<and>
         stopOK env new (fst (phaseDelay env txsMap genBErr st))"
  using serialLoop_stopOK [of env 0 "txsMap DelayTxType" genBErr st]
  by (simp add: phaseDelay_def serialExecuteTxs_def)

lemma serialPhases_stopOK:
  "\<exists>new. trace (snd (serialPhases env txsMap genBErr st)) = trace st @ new \<and>
         stopOK env new (fst (serialPhases env txsMap genBErr st))"
proof -
  obtain e1 st1 where p1: "phaseStopNetwork env txsMap genBErr st = (e1, st1)"
    by (cases "phaseStopNetwork env txsMap genBErr st")
  with phaseStopNetwork_stopOK [of env txsMap genBErr st] obtain new1 where
    n1: "trace st1 = trace st @ new1" "stopOK env new1 e1" by auto
  show ?thesis
  proof (cases e1)
    case (Some err)
    with p1 n1 show ?thesis by (simp add: serialPhases_def)
  next
    case none1: None
    obtain e2 st2 where p2: "phaseFirstBlock env genBErr st1 = (e2, st2)"
      by (cases "phaseFirstBlock env genBErr st1")
    with phaseFirstBlock_stopOK [of env genBErr st1] obtain new2 where
      n2: "trace st2 = trace st1 @ new2" "stopOK env new2 e2" by auto
    from n1(2) none1 n2(2) have s12: "stopOK env (new1 @ new2) e2" by (simp add: stopOK_append)
    show ?thesis
    proof (cases e2)
      case (Some err)
      with p1 none1 p2 n1(1) n2(1) s12 show ?thesis by (simp add: serialPhases_def)
    next
      case none2: None
      from phaseDelay_stopOK [of env txsMap genBErr st2] obtain new3 where
        n3: "trace (snd (phaseDelay env txsMap genBErr st2)) = trace st2 @ new3"
          "stopOK env new3 (fst (phaseDelay env txsMap genBErr st2))" by blast
      from s12 none2 have "stopOK env (new1 @ new2) None" by simp
      from this n3(2) have
        "stopOK env ((new1 @ new2) @ new3) (fst (phaseDelay env txsMap genBErr st2))"
        by (rule stopOK_append)
      with p1 none1 p2 none2 n1(1) n2(1) n3(1) show ?thesis by (simp add: serialPhases_def)
    qed
  qed
qed

lemma banLoop_marks_succeed:
  "\<forall>t \<in> set txs. MarkTransactionBad env (Hash t) msg = None \<Longrightarrow>
   fst (banLoop env msg txs banK st) = None \<and>
   (\<exists>ban. trace (snd (banLoop env msg txs banK st)) = trace st @ ban \<and> \<not> list_ex outerEvent ban)"
proof (induction txs arbitrary: banK st)
  case Nil
  show ?case by simp
next
  case (Cons t txs)
  show ?case
  proof (cases "KeyID t \<notin> set banK \<and> IsSmartContract t")
    case True
    from Cons.prems have "\<forall>t \<in> set txs. MarkTransactionBad env (Hash t) msg = None" by simp
    from Cons.IH [OF this, of "KeyID t # banK" "emit (EvBadTxForBan (KeyID t)) st"] True
    show ?thesis by (auto simp: emit_def)
  next
    case False
    from Cons.prems have m: "MarkTransactionBad env (Hash t) msg = None"
      and "\<forall>t \<in> set txs. MarkTransactionBad env (Hash t) msg = None" by simp_all
    from Cons.IH [OF this(2), of banK "emit (EvMarkTransactionBad (Hash t) msg) st"] False m
    show ?thesis by (auto simp: emit_def)
  qed
qed

text \<open>
  C7, as stated, fails: \<^verbatim>\<open>PlaySafe\<close> does not always return \<^verbatim>\<open>ErrNetworkStopping\<close>. For a
  validated block of one stop-network transaction the executor pauses the node and returns
  \<^verbatim>\<open>ErrNetworkStopping\<close>; the deferred function of \<^verbatim>\<open>ProcessTxs\<close> then runs \<^verbatim>\<open>AfterPlayTxs\<close>,
  and when that fails it returns \<^verbatim>\<open>fmt.Errorf("%v; %w", err, errA)\<close>, which wraps the error of
  \<^verbatim>\<open>AfterPlayTxs\<close> and is not \<^verbatim>\<open>ErrNetworkStopping\<close>. \<^verbatim>\<open>PlaySafe\<close> rolls back and returns
  that composed error.
\<close>

theorem C7_composed_error_counterexample:
  "playErr (Play (envStop\<lparr>AfterPlayTxs := Some (ErrorNew ''no side tables'')\<rparr>) (delayTx ''stop'' 7)) =
     Some ErrNetworkStopping \<and>
   map_option (\<lambda>(e, st). (e, trace st))
     (PlaySafe (envStop\<lparr>AfterPlayTxs := Some (ErrorNew ''no side tables'')\<rparr>) stStop) =
     Some (Some (ErrorfBoth ErrNetworkStopping (ErrorNew ''no side tables'')),
           [EvStartTransaction, EvGetTxOutputs [7], EvSavepoint (delayTx ''stop'' 7),
            EvWithOption (delayTx ''stop'' 7), EvPlay (delayTx ''stop'' 7), EvPauseNodeActivity,
            EvAfterPlayTxs, EvRollback]) \<and>
   map_option fst (PlaySafe (envStop\<lparr>AfterPlayTxs := Some (ErrorNew ''no side tables'')\<rparr>) stStop) \<noteq>
     Some (Some ErrNetworkStopping)"
  by (simp add: play_eval envStop_def stStop_def envOK_def lookupTx_def playOK_def failing_def
      delayTx_def blockOf_def)

text \<open>
  C7, amended. First, wherever the executor runs: when the savepoint and the binding of a
  transaction succeed and its \<^verbatim>\<open>Play\<close> returns \<^verbatim>\<open>ErrNetworkStopping\<close>, the executor calls
  \<^verbatim>\<open>PauseNodeActivity\<close> and returns that error at once; the state is the one before but for
  the four calls (no savepoint rollback, no marking, no further transaction). Second, when a
  transaction \<open>t\<close> with such a \<^verbatim>\<open>Play\<close> is played in one of the serial phases (stop-network,
  genesis, delay) of a block play, the serial phases end with \<^verbatim>\<open>ErrNetworkStopping\<close> right
  after the play of \<open>t\<close> and the pause; and if no marking of an input transaction fails,
  \<^verbatim>\<open>PlaySafe\<close> returns \<^verbatim>\<open>ErrNetworkStopping\<close>, composed with the error of \<^verbatim>\<open>AfterPlayTxs\<close>
  when that call fails, and after the serial phases it has called \<^verbatim>\<open>AfterPlayTxs\<close>,
  \<^verbatim>\<open>Rollback\<close> and then at most the bans and marks of the ban loop: no commit, no send.
  The hypotheses name the classified transactions \<open>txsMap\<close>, the state \<open>st1\<close> after the
  classification and the state \<open>st2\<close> after the serial phases; the block play is not the SQL
  shortcut and the outputs have been loaded.
\<close>

theorem C7_network_stopping:
  assumes "StartTransaction env = None"
    and "classify env allTxTypes (\<lambda>k. [])
           ((emit EvStartTransaction st)
              \<lparr>afters := \<lparr>Rts = [], Txs = [], TxBinLogSql = []\<rparr>, processedTx := []\<rparr>) =
         (txsMap, st1)"
    and "GenBlock (blk st) \<or> IsGenesis (blk st) \<or> \<not> BlockSyncMethodSQLDML env"
    and "GetTxOutputs env (map KeyID (Transactions (blk st))) = None"
    and "serialPhases env txsMap None
           (emit (EvGetTxOutputs (map KeyID (Transactions (blk st)))) st1) = (res, st2)"
    and "EvPlay t \<in> set (drop (Suc (length (trace st1))) (trace st2))"
    and "playErr (Play env t) = Some ErrNetworkStopping"
    and "\<forall>t' \<in> set (Transactions (blk st)).
           MarkTransactionBad env (Hash t') (Error (SentinelText env) (stoppingError env)) = None"
  shows "(\<forall>curTx t0 rest genBErr st0.
            Savepoint env t0 = None \<and> WithOption env t0 = None \<and>
            playErr (Play env t0) = Some ErrNetworkStopping \<longrightarrow>
            serialLoop env curTx (t0 # rest) genBErr st0 =
              (Some ErrNetworkStopping,
               st0\<lparr>trace := trace st0 @
                  [EvSavepoint t0, EvWithOption t0, EvPlay t0, EvPauseNodeActivity]\<rparr>)) \<and>
         res = Some ErrNetworkStopping \<and>
         (\<exists>pre. trace st2 = pre @ [EvPlay t, EvPauseNodeActivity]) \<and>
         (\<exists>st3 ban. PlaySafe env st = Some (Some (stoppingError env), st3) \<and>
            trace st3 = trace st2 @ [EvAfterPlayTxs, EvRollback] @ ban \<and>
            \<not> list_ex outerEvent ban)"
proof -
  let ?st0 = "(emit EvStartTransaction st)
              \<lparr>afters := \<lparr>Rts = [], Txs = [], TxBinLogSql = []\<rparr>, processedTx := []\<rparr>"
  let ?keys = "map KeyID (Transactions (blk st))"
  let ?sg = "emit (EvGetTxOutputs ?keys) st1"
  have exec: "\<forall>curTx t0 rest genBErr st0.
            Savepoint env t0 = None \<and> WithOption env t0 = None \<and>
            playErr (Play env t0) = Some ErrNetworkStopping \<longrightarrow>
            serialLoop env curTx (t0 # rest) genBErr st0 =
              (Some ErrNetworkStopping,
               st0\<lparr>trace := trace st0 @
                  [EvSavepoint t0, EvWithOption t0, EvPlay t0, EvPauseNodeActivity]\<rparr>)"
    by (simp add: execTx_def emit_def Let_def)
  from frame_classify [of ?st0 env allTxTypes "\<lambda>k. []"] assms(2) have "frame ?st0 st1" by simp
  then have b1: "GenBlock (blk st1) = GenBlock (blk st)" "IsGenesis (blk st1) = IsGenesis (blk st)"
    "Transactions (blk st1) = Transactions (blk st)"
    by (simp_all add: frame_def emit_def)
  from serialPhases_stopOK [of env txsMap None ?sg] assms(5) obtain new where
    new: "trace st2 = trace ?sg @ new" "stopOK env new res" by auto
  have "trace ?sg = trace st1 @ [EvGetTxOutputs ?keys]" by (simp add: emit_def)
  with new(1) have "drop (Suc (length (trace st1))) (trace st2) = new" by simp
  with assms(6) have "EvPlay t \<in> set new" by simp
  with new(2) assms(7) obtain pre where
    res: "res = Some ErrNetworkStopping" and pre: "new = pre @ [EvPlay t, EvPauseNodeActivity]"
    by (auto simp: stopOK_def)
  from new(1) pre have tr2: "trace st2 = (trace ?sg @ pre) @ [EvPlay t, EvPauseNodeActivity]"
    by simp
  from frame_serialPhases [of ?sg env txsMap None] assms(5) have "frame ?sg st2" by simp
  then have b2: "GenBlock (blk st2) = GenBlock (blk st)" "IsGenesis (blk st2) = IsGenesis (blk st)"
    using b1 by (simp_all add: frame_def emit_def)
  have body: "processBody env txsMap None st1 = Some (Some ErrNetworkStopping, st2)"
    using assms(3,4,5) b1 res by (auto simp: processBody_def Let_def)
  obtain st2' where
    dfr: "deferred env None (Some ErrNetworkStopping) st2 = (Some (stoppingError env), st2')"
    and t2': "trace st2' = trace st2 @ [EvAfterPlayTxs]"
    by (cases "AfterPlayTxs env") (simp_all add: deferred_def Let_def emit_def stoppingError_def)
  from assms(2) body dfr have
    pt: "ProcessTxs env (emit EvStartTransaction st) = Some (Some (stoppingError env), st2')"
    by (simp add: ProcessTxs_def Let_def)
  let ?st3 = "emit EvRollback st2'"
  let ?msg = "Error (SentinelText env) (stoppingError env)"
  show ?thesis
  proof (cases "GenBlock (blk ?st3) \<and> length (TxFullData (blk ?st3)) = 0")
    case False
    with assms(1) pt have "PlaySafe env st = Some (Some (stoppingError env), ?st3)"
      by (auto simp: PlaySafe_def Let_def)
    moreover have "trace ?st3 = trace st2 @ [EvAfterPlayTxs, EvRollback] @ []"
      using t2' by (simp add: emit_def)
    moreover have "\<not> list_ex outerEvent []" by simp
    ultimately show ?thesis using exec res tr2 by blast
  next
    case True
    obtain eB stB where bl: "banLoop env ?msg (Transactions (blk st)) [] ?st3 = (eB, stB)"
      by (cases "banLoop env ?msg (Transactions (blk st)) [] ?st3")
    from banLoop_marks_succeed [OF assms(8), of "[]" ?st3] bl obtain ban where
      ok: "eB = None" and ban: "trace stB = trace ?st3 @ ban" "\<not> list_ex outerEvent ban"
      by auto
    from assms(1) pt True bl ok have "PlaySafe env st = Some (Some (stoppingError env), stB)"
      by (simp add: PlaySafe_def Let_def)
    moreover have "trace stB = trace st2 @ [EvAfterPlayTxs, EvRollback] @ ban"
      using ban(1) t2' by (simp add: emit_def)
    ultimately show ?thesis using exec res tr2 ban(2) by blast
  qed
qed

text \<open>
  C7, amended, at the block of one stop-network transaction: with every other call succeeding,
  and with a failing \<^verbatim>\<open>AfterPlayTxs\<close>.
\<close>

theorem C7_network_stopping_witness:
  "map_option (\<lambda>(e, st). (e, trace st)) (PlaySafe envStop stStop) =
     Some (Some ErrNetworkStopping,
           [EvStartTransaction, EvGetTxOutputs [7], EvSavepoint (delayTx ''stop'' 7),
            EvWithOption (delayTx ''stop'' 7), EvPlay (delayTx ''stop'' 7), EvPauseNodeActivity,
            EvAfterPlayTxs, EvRollback]) \<and>
   map_option fst (PlaySafe (envStop\<lparr>AfterPlayTxs := Some (ErrorNew ''no side tables'')\<rparr>) stStop) =
     Some (Some (ErrorfBoth ErrNetworkStopping (ErrorNew ''no side tables'')))"
  using C7_network_stopping [of envStop stStop
      "\<lambda>k. if k = StopNetworkTxType then [delayTx ''stop'' 7] else []"
      "(emit EvStartTransaction stStop)
              \<lparr>afters := \<lparr>Rts = [], Txs = [], TxBinLogSql = []\<rparr>, processedTx := []\<rparr>"
      "Some ErrNetworkStopping"
      "snd (serialPhases envStop (\<lambda>k. if k = StopNetworkTxType then [delayTx ''stop'' 7] else []) None
         (emit (EvGetTxOutputs [7]) ((emit EvStartTransaction stStop)
              \<lparr>afters := \<lparr>Rts = [], Txs = [], TxBinLogSql = []\<rparr>, processedTx := []\<rparr>)))"
      "delayTx ''stop'' 7"]
  by (simp add: play_eval fun_eq_iff envStop_def stStop_def stoppingError_def envOK_def
      lookupTx_def playOK_def failing_def delayTx_def blockOf_def)

end
